theory Spec2Isabelle
  imports Main
begin

section \<open>The tree builder of tree-cli (tree-builder.ts)\<close>

text \<open>
  The development follows \<^verbatim>\<open>src/tree-builder.ts\<close>: \<^verbatim>\<open>getSummary\<close> and
  \<^verbatim>\<open>buildTree\<close>. Everything the two functions take from outside the repository
  is a field of the record \<open>Env\<close>: the three calls of \<^verbatim>\<open>fs/promises\<close>
  (\<^verbatim>\<open>lstat\<close>, \<^verbatim>\<open>readFile\<close>, \<^verbatim>\<open>readdir\<close>; \<open>None\<close> is a rejected promise, which
  the source catches at every call), the matcher of the \<^verbatim>\<open>ignore\<close> package,
  which may throw and is called outside every \<^verbatim>\<open>try\<close>, and
  \<^verbatim>\<open>String.prototype.localeCompare\<close>. The file system is one fixed state during a
  scan: the same call gives the same answer.
\<close>

subsection \<open>Data model (tree-types.ts)\<close>

datatype NodeType = File | Folder

datatype Skipped = SkippedGitignore | SkippedSize

text \<open>
  \<^verbatim>\<open>TreeNode\<close>: the optional fields \<^verbatim>\<open>children\<close>, \<^verbatim>\<open>skipped\<close> and \<^verbatim>\<open>stats\<close> are
  options; \<open>children = Some []\<close> is a present, empty array, \<open>children = None\<close> an
  absent field. \<open>stats\<close> holds the \<^verbatim>\<open>size\<close> of \<^verbatim>\<open>{ size: number }\<close>.
\<close>

type_synonym path = "string list"

datatype TreeNode = TreeNode
  (name: string)
  (path: path)
  (type: NodeType)
  (children: "TreeNode list option")
  (skipped: "Skipped option")
  (stats: "nat option")

record TreeOptions =
  maxLeaf :: "int option"
  ignorePatterns :: "string list option"

record TreeSummary =
  totalFiles :: nat
  totalFolders :: nat
  skippedGitignore :: nat
  skippedSize :: nat

subsection \<open>The world outside the repository\<close>

text \<open>
  What \<^verbatim>\<open>fs.lstat\<close> resolves to: the two tests the source calls and the size.
\<close>

record Stats =
  isSymbolicLink :: bool
  isDirectory :: bool
  st_size :: nat

text \<open>
  An instance of \<^verbatim>\<open>ignore()\<close> is the list of the rule texts added to it, in the
  order of the \<^verbatim>\<open>add\<close> calls; \<open>ignores E ig rel\<close> is \<^verbatim>\<open>ig.ignores(rel)\<close>,
  which returns a boolean (\<open>Inr\<close>) or throws (\<open>Inl\<close>).
\<close>

type_synonym Ignorer = "string list"

datatype error = TypeError | RangeError

record Env =
  lstat :: "path \<Rightarrow> Stats option"
  readFile :: "path \<Rightarrow> string option"
  readdir :: "path \<Rightarrow> string list option"
  ignores :: "Ignorer \<Rightarrow> string \<Rightarrow> error + bool"
  localeCompare :: "string \<Rightarrow> string \<Rightarrow> int"

subsection \<open>Paths\<close>

text \<open>
  A path is the list of its components below the file system root (the caller hands
  \<^verbatim>\<open>path.resolve\<close>d paths to \<^verbatim>\<open>buildTree\<close>). \<^verbatim>\<open>path.join(dir, item)\<close> with a
  name read from the directory appends one component, \<^verbatim>\<open>path.basename\<close> is the last
  component, and \<^verbatim>\<open>path.relative(from, to)\<close> drops the common prefix, climbs with
  one \<^verbatim>\<open>..\<close> for each component left of \<open>from\<close> and joins the result with
  \<^verbatim>\<open>/\<close>.
\<close>

definition path_join :: "path \<Rightarrow> string \<Rightarrow> path" where
  "path_join dir item = dir @ [item]"

definition path_basename :: "path \<Rightarrow> string" where
  "path_basename p = (if p = [] then [] else last p)"

fun strip_common :: "path \<Rightarrow> path \<Rightarrow> path \<times> path" where
  "strip_common (a # as) (b # bs) =
     (if a = b then strip_common as bs else (a # as, b # bs))"
| "strip_common as bs = (as, bs)"

fun join_sep :: "string list \<Rightarrow> string" where
  "join_sep [] = []"
| "join_sep [x] = x"
| "join_sep (x # y # ys) = x @ ''/'' @ join_sep (y # ys)"

definition path_relative :: "path \<Rightarrow> path \<Rightarrow> string" where
  "path_relative from to =
     (case strip_common from to of
        (f, t) \<Rightarrow> join_sep (replicate (length f) ''..'' @ t))"

subsection \<open>getSummary\<close>

text \<open>
  \<^verbatim>\<open>traverse\<close> updates the captured \<^verbatim>\<open>summary\<close> object; here the summary is
  passed in and returned. \<^verbatim>\<open>n.children.forEach(traverse)\<close> is a left-to-right fold.
\<close>

fun traverse :: "TreeNode \<Rightarrow> TreeSummary \<Rightarrow> TreeSummary" where
  "traverse (TreeNode nm p t ch sk st) summary =
     (let s1 =
        (if t = Folder then
           (let a = summary\<lparr>totalFolders := totalFolders summary + 1\<rparr>;
                b = (if sk = Some SkippedGitignore
                     then a\<lparr>skippedGitignore := skippedGitignore a + 1\<rparr> else a)
            in (if sk = Some SkippedSize
                then b\<lparr>skippedSize := skippedSize b + 1\<rparr> else b))
         else summary\<lparr>totalFiles := totalFiles summary + 1\<rparr>)
      in (case ch of None \<Rightarrow> s1 | Some cs \<Rightarrow> fold traverse cs s1))"

definition getSummary :: "TreeNode \<Rightarrow> TreeSummary" where
  "getSummary node =
     traverse node
       \<lparr>totalFiles = 0, totalFolders = 0, skippedGitignore = 0, skippedSize = 0\<rparr>"

subsection \<open>buildTree\<close>

record IgnoreStackItem =
  ignorer :: Ignorer
  basePath :: path

record Candidate =
  cand_name :: string
  cand_path :: path
  isIgnored :: bool
  cand_stats :: Stats

text \<open>
  Lines 72 to 86: the matcher of the current directory. Only a call with an empty
  stack adds \<^verbatim>\<open>.git\<close> and the patterns of the options; the content of the
  directory's \<^verbatim>\<open>.gitignore\<close> is added when the file can be read.
\<close>

definition currentIgnorer ::
  "Env \<Rightarrow> path \<Rightarrow> TreeOptions \<Rightarrow> IgnoreStackItem list \<Rightarrow> Ignorer" where
  "currentIgnorer E currentPath options ignoreStack =
     (let ig0 = (if ignoreStack = []
                 then [''.git''] @
                      (case ignorePatterns options of None \<Rightarrow> [] | Some ps \<Rightarrow> ps)
                 else [])
      in (case readFile E (path_join currentPath ''.gitignore'') of
            None \<Rightarrow> ig0
          | Some gitignoreContent \<Rightarrow> ig0 @ [gitignoreContent]))"

text \<open>
  Lines 112 to 124: the loop over the stack, leaving at the first level that matches.
  Neither call of \<^verbatim>\<open>ignorer.ignores\<close> stands in a \<^verbatim>\<open>try\<close>: what it throws
  leaves the loop and \<^verbatim>\<open>buildTree\<close>.
\<close>

fun checkIgnored ::
  "Env \<Rightarrow> IgnoreStackItem list \<Rightarrow> path \<Rightarrow> Stats \<Rightarrow> error + bool" where
  "checkIgnored E [] itemPath s = Inr False"
| "checkIgnored E (lvl # rest) itemPath s =
     (let relPath = path_relative (basePath lvl) itemPath in
      case ignores E (ignorer lvl) relPath of
        Inl e \<Rightarrow> Inl e
      | Inr plain \<Rightarrow>
          if plain then Inr True
          else if isDirectory s then
            (case ignores E (ignorer lvl) (relPath @ ''/'') of
               Inl e \<Rightarrow> Inl e
             | Inr slashed \<Rightarrow>
                 if slashed then Inr True else checkIgnored E rest itemPath s)
          else checkIgnored E rest itemPath s)"

text \<open>
  Lines 103 to 127: the candidates. An entry whose \<^verbatim>\<open>lstat\<close> fails and a
  symbolic link are passed over (\<^verbatim>\<open>continue\<close>); an error of the matcher ends the
  loop.
\<close>

fun scanCandidates ::
  "Env \<Rightarrow> path \<Rightarrow> IgnoreStackItem list \<Rightarrow> string list \<Rightarrow> error + Candidate list" where
  "scanCandidates E currentPath newStack [] = Inr []"
| "scanCandidates E currentPath newStack (item # items) =
     (let itemPath = path_join currentPath item in
      case lstat E itemPath of
        None \<Rightarrow> scanCandidates E currentPath newStack items
      | Some s \<Rightarrow>
          if isSymbolicLink s then scanCandidates E currentPath newStack items
          else
            (case checkIgnored E newStack itemPath s of
               Inl e \<Rightarrow> Inl e
             | Inr ig \<Rightarrow>
                 (case scanCandidates E currentPath newStack items of
                    Inl e \<Rightarrow> Inl e
                  | Inr rest \<Rightarrow>
                      Inr (\<lparr>cand_name = item, cand_path = itemPath,
                             isIgnored = ig, cand_stats = s\<rparr> # rest))))"

text \<open>
  Line 131: \<^verbatim>\<open>options.maxLeaf && visibleCount > options.maxLeaf\<close>. An absent
  \<^verbatim>\<open>maxLeaf\<close> and the number 0 are falsy.
\<close>

definition exceedsMaxLeaf :: "TreeOptions \<Rightarrow> nat \<Rightarrow> bool" where
  "exceedsMaxLeaf options visibleCount =
     (case maxLeaf options of
        None \<Rightarrow> False
      | Some m \<Rightarrow> m \<noteq> 0 \<and> int visibleCount > m)"

text \<open>
  What an \<^verbatim>\<open>async\<close> call comes to: \<open>Some (Inr x)\<close> is a promise resolved with
  \<open>x\<close>, \<open>Some (Inl e)\<close> a promise rejected with \<open>e\<close>, and \<open>None\<close> a call that
  has not returned.
\<close>

type_synonym 'a outcome = "(error + 'a) option"

definition pushNode :: "TreeNode \<Rightarrow> TreeNode list outcome \<Rightarrow> TreeNode list outcome" where
  "pushNode n r = map_option (map_sum id ((#) n)) r"

text \<open>
  Lines 140 to 164: the children, in the order of the candidates. \<open>recurse\<close> is the
  recursive call \<^verbatim>\<open>buildTree(cand.path, options, newStack)\<close>; when it is rejected
  or does not return, so is the loop.
\<close>

fun buildChildren ::
  "(path \<Rightarrow> TreeNode outcome) \<Rightarrow> Candidate list \<Rightarrow> TreeNode list outcome" where
  "buildChildren recurse [] = Some (Inr [])"
| "buildChildren recurse (cand # cands) =
     (if isIgnored cand then
        (if isDirectory (cand_stats cand) then
           pushNode
             (TreeNode (cand_name cand) (cand_path cand) Folder None
                (Some SkippedGitignore) None)
             (buildChildren recurse cands)
         else buildChildren recurse cands)
      else if isDirectory (cand_stats cand) then
        (case recurse (cand_path cand) of
           None \<Rightarrow> None
         | Some (Inl e) \<Rightarrow> Some (Inl e)
         | Some (Inr sub) \<Rightarrow> pushNode sub (buildChildren recurse cands))
      else
        pushNode
          (TreeNode (cand_name cand) (cand_path cand) File None None
             (Some (st_size (cand_stats cand))))
          (buildChildren recurse cands))"

text \<open>
  Lines 166 to 171: the comparator, and \<^verbatim>\<open>Array.prototype.sort\<close> as the stable
  sort by it (an element goes in front of the first element it does not compare
  greater than).
\<close>

definition compareNodes :: "Env \<Rightarrow> TreeNode \<Rightarrow> TreeNode \<Rightarrow> int" where
  "compareNodes E a b =
     (if type a = type b then localeCompare E (name a) (name b)
      else if type a = Folder then - 1 else 1)"

fun insert_by :: "('a \<Rightarrow> 'a \<Rightarrow> int) \<Rightarrow> 'a \<Rightarrow> 'a list \<Rightarrow> 'a list" where
  "insert_by cmp x [] = [x]"
| "insert_by cmp x (y # ys) =
     (if cmp x y \<le> 0 then x # y # ys else y # insert_by cmp x ys)"

definition array_sort :: "('a \<Rightarrow> 'a \<Rightarrow> int) \<Rightarrow> 'a list \<Rightarrow> 'a list" where
  "array_sort cmp xs = foldr (insert_by cmp) xs []"

text \<open>
  Line 89: the stack handed to the scan of this directory and to every recursive
  call is the stack received with the level of this directory appended.
\<close>

definition pushLevel ::
  "Env \<Rightarrow> path \<Rightarrow> TreeOptions \<Rightarrow> IgnoreStackItem list \<Rightarrow> IgnoreStackItem list" where
  "pushLevel E currentPath options ignoreStack =
     ignoreStack @
     [\<lparr>ignorer = currentIgnorer E currentPath options ignoreStack,
       basePath = currentPath\<rparr>]"

text \<open>Line 129: \<^verbatim>\<open>candidates.filter(c => !c.isIgnored).length\<close>.\<close>

definition visibleCount :: "Candidate list \<Rightarrow> nat" where
  "visibleCount candidates = length (filter (\<lambda>c. \<not> isIgnored c) candidates)"

text \<open>
  \<^verbatim>\<open>buildTree\<close>. The first argument bounds the depth of the recursion: a call with
  \<open>Suc fuel\<close> makes its recursive calls with \<open>fuel\<close>, and \<open>None\<close> is a call that
  has not returned within the bound. Every other branch is a branch of the source.
\<close>

fun buildTree ::
  "nat \<Rightarrow> Env \<Rightarrow> path \<Rightarrow> TreeOptions \<Rightarrow> IgnoreStackItem list \<Rightarrow> TreeNode outcome" where
  "buildTree 0 E currentPath options ignoreStack = None"
| "buildTree (Suc fuel) E currentPath options ignoreStack =
     (let nm = path_basename currentPath in
      case lstat E currentPath of
        None \<Rightarrow> Some (Inr (TreeNode nm currentPath File None None (Some 0)))
      | Some st \<Rightarrow>
          if isSymbolicLink st then
            Some (Inr (TreeNode nm currentPath File None None (Some 0)))
          else if \<not> isDirectory st then
            Some (Inr (TreeNode nm currentPath File None None (Some (st_size st))))
          else
            (let newStack = pushLevel E currentPath options ignoreStack
             in case readdir E currentPath of
                  None \<Rightarrow> Some (Inr (TreeNode nm currentPath Folder (Some []) None None))
                | Some childrenItems \<Rightarrow>
                    (case scanCandidates E currentPath newStack childrenItems of
                       Inl e \<Rightarrow> Some (Inl e)
                     | Inr candidates \<Rightarrow>
                         if exceedsMaxLeaf options (visibleCount candidates) then
                           Some (Inr (TreeNode nm currentPath Folder None
                                        (Some SkippedSize) None))
                         else
                           (case buildChildren
                                   (\<lambda>p. buildTree fuel E p options newStack) candidates of
                              None \<Rightarrow> None
                            | Some (Inl e) \<Rightarrow> Some (Inl e)
                            | Some (Inr cs) \<Rightarrow>
                                Some (Inr (TreeNode nm currentPath Folder
                                             (Some (array_sort (compareNodes E) cs))
                                             None None))))))"

subsection \<open>Walking a tree\<close>

text \<open>All nodes of a tree, the root first.\<close>

fun nodes :: "TreeNode \<Rightarrow> TreeNode list" where
  "nodes (TreeNode nm p t ch sk st) =
     TreeNode nm p t ch sk st #
     (case ch of None \<Rightarrow> [] | Some cs \<Rightarrow> concat (map nodes cs))"


text \<open>
  What a list of nodes adds to a summary: the four counters of \<^verbatim>\<open>traverse\<close>, one
  node at a time.
\<close>

definition addCounts :: "TreeNode list \<Rightarrow> TreeSummary \<Rightarrow> TreeSummary" where
  "addCounts ns s =
     \<lparr>totalFiles = totalFiles s + length (filter (\<lambda>m. type m = File) ns),
      totalFolders = totalFolders s + length (filter (\<lambda>m. type m = Folder) ns),
      skippedGitignore = skippedGitignore s +
        length (filter (\<lambda>m. type m = Folder \<and> skipped m = Some SkippedGitignore) ns),
      skippedSize = skippedSize s +
        length (filter (\<lambda>m. type m = Folder \<and> skipped m = Some SkippedSize) ns)\<rparr>"



subsection \<open>Trees and file systems of the test suite\<close>

text \<open>
  The tree of the test \<^verbatim>\<open>should calculate correct summary\<close>: one file, one folder
  holding one file, one folder skipped by an ignore rule and one skipped for its size.
\<close>

definition summaryTree :: TreeNode where
  "summaryTree =
     TreeNode ''root'' [''root''] Folder
       (Some [TreeNode ''a.txt'' [''root'', ''a.txt''] File None None (Some 1),
              TreeNode ''sub'' [''root'', ''sub''] Folder
                (Some [TreeNode ''b.txt'' [''root'', ''sub'', ''b.txt''] File None None
                         (Some 2)])
                None None,
              TreeNode ''node_modules'' [''root'', ''node_modules''] Folder None
                (Some SkippedGitignore) None,
              TreeNode ''large'' [''root'', ''large''] Folder None (Some SkippedSize) None])
       None None"

text \<open>
  A tree that \<^verbatim>\<open>buildTree\<close> never returns but the type \<^verbatim>\<open>TreeNode\<close> allows: two
  file nodes carrying a \<^verbatim>\<open>skipped\<close> marker.
\<close>

definition markedFilesTree :: TreeNode where
  "markedFilesTree =
     TreeNode ''root'' [''root''] Folder
       (Some [TreeNode ''a.txt'' [''root'', ''a.txt''] File None (Some SkippedGitignore)
                (Some 1),
              TreeNode ''b.txt'' [''root'', ''b.txt''] File None (Some SkippedSize)
                (Some 2)])
       None None"

subsection \<open>Stand-ins for the two library functions\<close>

text \<open>
  The \<^verbatim>\<open>ignore\<close> package and \<^verbatim>\<open>String.prototype.localeCompare\<close> are not code
  of the repository; the general theorems hold for every matcher and, where the
  order matters, for every comparison that is a total preorder. To run
  \<^verbatim>\<open>buildTree\<close> on a concrete file system one instance of each is used.

  The matcher has whole relative paths as its rules and checks its argument as the
  package does (\<^verbatim>\<open>checkPath\<close>): an empty path is a \<^verbatim>\<open>TypeError\<close>, and a path
  that matches \<^verbatim>\<open>/^\.*\/|^\.+$/\<close> (dots and then a slash at its start, or dots
  only) is a \<^verbatim>\<open>RangeError\<close>.
\<close>

definition invalidPath :: "string \<Rightarrow> bool" where
  "invalidPath rel =
     (case dropWhile (\<lambda>c. c = CHR ''.'') rel of
        [] \<Rightarrow> rel \<noteq> []
      | c # rest \<Rightarrow> c = CHR ''/'')"

definition literalIgnores :: "Ignorer \<Rightarrow> string \<Rightarrow> error + bool" where
  "literalIgnores rules rel =
     (if rel = [] then Inl TypeError
      else if invalidPath rel then Inl RangeError
      else Inr (rel \<in> set rules))"

text \<open>
  Two comparisons of names, both by the first place where two lists of keys differ.
  \<open>codeCompare\<close> is the case-sensitive lexicographic comparison: the key of a
  character is its code. \<open>collate\<close> follows what \<^verbatim>\<open>localeCompare\<close> does in the
  runtime's default locale on names of letters, digits and dots: the letters are
  compared without regard to case first, and only names that are equal up to case
  are told apart, the lower case letter first.
\<close>

definition charCode :: "char \<Rightarrow> nat" where
  "charCode c = of_char c"

fun lexCompare :: "nat list \<Rightarrow> nat list \<Rightarrow> int" where
  "lexCompare [] [] = 0"
| "lexCompare [] (y # ys) = - 1"
| "lexCompare (x # xs) [] = 1"
| "lexCompare (x # xs) (y # ys) =
     (if x < y then - 1 else if y < x then 1 else lexCompare xs ys)"

definition codeCompare :: "string \<Rightarrow> string \<Rightarrow> int" where
  "codeCompare a b = lexCompare (map charCode a) (map charCode b)"

definition isUpper :: "char \<Rightarrow> bool" where
  "isUpper c = (65 \<le> charCode c \<and> charCode c \<le> 90)"

definition letterKey :: "char \<Rightarrow> nat" where
  "letterKey c = (if isUpper c then charCode c + 32 else charCode c)"

definition caseKey :: "char \<Rightarrow> nat" where
  "caseKey c = (if isUpper c then 1 else 0)"

definition collate :: "string \<Rightarrow> string \<Rightarrow> int" where
  "collate a b =
     (if map letterKey a = map letterKey b
      then lexCompare (map caseKey a) (map caseKey b)
      else lexCompare (map letterKey a) (map letterKey b))"

definition fileStats :: "nat \<Rightarrow> Stats" where
  "fileStats sz = \<lparr>isSymbolicLink = False, isDirectory = False, st_size = sz\<rparr>"

definition dirStats :: Stats where
  "dirStats = \<lparr>isSymbolicLink = False, isDirectory = True, st_size = 4096\<rparr>"

definition linkStats :: Stats where
  "linkStats = \<lparr>isSymbolicLink = True, isDirectory = False, st_size = 6\<rparr>"

definition noOptions :: TreeOptions where
  "noOptions = \<lparr>maxLeaf = None, ignorePatterns = None\<rparr>"

text \<open>
  The file system of the test \<^verbatim>\<open>should respect maxLeaf option\<close>: a directory
  \<^verbatim>\<open>large-dir\<close> with five files.
\<close>

definition largeNames :: "string list" where
  "largeNames = [''file0.txt'', ''file1.txt'', ''file2.txt'', ''file3.txt'', ''file4.txt'']"

definition largeDirEnv :: Env where
  "largeDirEnv =
     \<lparr>lstat = (\<lambda>q. if q = [''root''] \<or> q = [''root'', ''large-dir''] then Some dirStats
                   else if \<exists>f \<in> set largeNames. q = [''root'', ''large-dir'', f]
                   then Some (fileStats 7) else None),
      readFile = (\<lambda>q. None),
      readdir = (\<lambda>q. if q = [''root''] then Some [''large-dir'']
                     else if q = [''root'', ''large-dir''] then Some largeNames else None),
      ignores = literalIgnores,
      localeCompare = collate\<rparr>"

definition largeDirStack :: "TreeOptions \<Rightarrow> IgnoreStackItem list" where
  "largeDirStack options = pushLevel largeDirEnv [''root''] options []"

definition threeHidden :: TreeOptions where
  "threeHidden =
     \<lparr>maxLeaf = Some 3,
      ignorePatterns = Some [''large-dir/file0.txt'', ''large-dir/file1.txt'',
                             ''large-dir/file2.txt'']\<rparr>"

text \<open>What \<^verbatim>\<open>buildTree\<close> returns on that file system when nothing is collapsed.\<close>

definition largeDirTree :: TreeNode where
  "largeDirTree =
     TreeNode ''root'' [''root''] Folder
       (Some
         [TreeNode ''large-dir'' [''root'', ''large-dir''] Folder
           (Some (map (\<lambda>f. TreeNode f [''root'', ''large-dir'', f] File None None (Some 7))
                    largeNames))
           None None])
       None None"


text \<open>
  A file system with a directory that cannot be listed, an entry that is listed but
  gone when \<^verbatim>\<open>lstat\<close> asks for it, and no path of three components or more.
\<close>

definition lockedEnv :: Env where
  "lockedEnv =
     \<lparr>lstat = (\<lambda>q. if q = [''root''] \<or> q = [''root'', ''locked''] then Some dirStats
                   else if q = [''root'', ''a.txt''] then Some (fileStats 3) else None),
      readFile = (\<lambda>q. None),
      readdir = (\<lambda>q. if q = [''root''] then Some [''a.txt'', ''locked'', ''gone.txt'']
                     else None),
      ignores = literalIgnores,
      localeCompare = collate\<rparr>"

text \<open>
  A directory whose listing mixes files and folders, in no order, with names that
  differ in case.
\<close>

definition sortEnv :: Env where
  "sortEnv =
     \<lparr>lstat = (\<lambda>q. if q = [''root''] \<or> q = [''root'', ''lib''] \<or> q = [''root'', ''Src'']
                   then Some dirStats
                   else if q = [''root'', ''b.txt''] \<or> q = [''root'', ''B.txt'']
                   then Some (fileStats 1) else None),
      readFile = (\<lambda>q. None),
      readdir = (\<lambda>q. if q = [''root''] then Some [''b.txt'', ''lib'', ''B.txt'', ''Src'']
                     else if q = [''root'', ''lib''] \<or> q = [''root'', ''Src''] then Some []
                     else None),
      ignores = literalIgnores,
      localeCompare = collate\<rparr>"

definition sortTree :: TreeNode where
  "sortTree =
     TreeNode ''root'' [''root''] Folder
       (Some [TreeNode ''lib'' [''root'', ''lib''] Folder (Some []) None None,
              TreeNode ''Src'' [''root'', ''Src''] Folder (Some []) None None,
              TreeNode ''b.txt'' [''root'', ''b.txt''] File None None (Some 1),
              TreeNode ''B.txt'' [''root'', ''B.txt''] File None None (Some 1)])
       None None"

text \<open>
  The file system of the test \<^verbatim>\<open>should skip symbolic links\<close>: a directory
  \<^verbatim>\<open>target\<close> with one file, and a symbolic link \<^verbatim>\<open>link\<close> to it. Listing the link
  follows it.
\<close>

definition symlinkEnv :: Env where
  "symlinkEnv =
     \<lparr>lstat = (\<lambda>q. if q = [''root''] \<or> q = [''root'', ''target''] then Some dirStats
                   else if q = [''root'', ''link''] then Some linkStats
                   else if q = [''root'', ''target'', ''file.txt''] \<or>
                           q = [''root'', ''link'', ''file.txt'']
                   then Some (fileStats 7) else None),
      readFile = (\<lambda>q. None),
      readdir = (\<lambda>q. if q = [''root''] then Some [''link'', ''target'']
                     else if q = [''root'', ''target''] \<or> q = [''root'', ''link'']
                     then Some [''file.txt''] else None),
      ignores = literalIgnores,
      localeCompare = collate\<rparr>"

definition symlinkTree :: TreeNode where
  "symlinkTree =
     TreeNode ''root'' [''root''] Folder
       (Some [TreeNode ''target'' [''root'', ''target''] Folder
                (Some [TreeNode ''file.txt'' [''root'', ''target'', ''file.txt''] File None
                         None (Some 7)])
                None None])
       None None"

text \<open>
  The file system of the test \<^verbatim>\<open>should ignore files based on .gitignore\<close>, with
  a \<^verbatim>\<open>.git\<close> directory added; the two rules are handed over as
  \<^verbatim>\<open>ignorePatterns\<close>.
\<close>

definition ignoreEnv :: Env where
  "ignoreEnv =
     \<lparr>lstat = (\<lambda>q. if q = [''root''] \<or> q = [''root'', ''node_modules''] \<or>
                      q = [''root'', ''.git'']
                   then Some dirStats
                   else if q = [''root'', ''ignored.txt''] \<or> q = [''root'', ''included.txt''] \<or>
                           q = [''root'', ''node_modules'', ''pkg.json''] \<or>
                           q = [''root'', ''.git'', ''HEAD'']
                   then Some (fileStats 2) else None),
      readFile = (\<lambda>q. None),
      readdir = (\<lambda>q. if q = [''root'']
                     then Some [''.git'', ''ignored.txt'', ''included.txt'', ''node_modules'']
                     else if q = [''root'', ''node_modules''] then Some [''pkg.json'']
                     else if q = [''root'', ''.git''] then Some [''HEAD'']
                     else None),
      ignores = literalIgnores,
      localeCompare = collate\<rparr>"

definition ignoreOptions :: TreeOptions where
  "ignoreOptions =
     \<lparr>maxLeaf = None, ignorePatterns = Some [''ignored.txt'', ''node_modules'']\<rparr>"

definition ignoreTree :: TreeNode where
  "ignoreTree =
     TreeNode ''root'' [''root''] Folder
       (Some [TreeNode ''.git'' [''root'', ''.git''] Folder None (Some SkippedGitignore) None,
              TreeNode ''node_modules'' [''root'', ''node_modules''] Folder None
                (Some SkippedGitignore) None,
              TreeNode ''included.txt'' [''root'', ''included.txt''] File None None (Some 2)])
       None None"






text \<open>
  A directory with an entry whose name is three dots, which is a legal file name.
\<close>

definition dotsEnv :: Env where
  "dotsEnv =
     \<lparr>lstat = (\<lambda>q. if q = [''root''] then Some dirStats
                   else if q = [''root'', ''...''] \<or> q = [''root'', ''a.txt'']
                   then Some (fileStats 1) else None),
      readFile = (\<lambda>q. None),
      readdir = (\<lambda>q. if q = [''root''] then Some [''...'', ''a.txt''] else None),
      ignores = literalIgnores,
      localeCompare = collate\<rparr>"

text \<open>
  A directory of five entries, one of them a directory, two of them excluded by the
  patterns of the options.
\<close>

definition visibleEnv :: Env where
  "visibleEnv =
     \<lparr>lstat = (\<lambda>q. if q = [''root''] \<or> q = [''root'', ''docs''] then Some dirStats
                   else if q = [''root'', ''docs'', ''guide.md''] \<or>
                           (\<exists>f \<in> set [''w.txt'', ''x.txt'', ''y.txt'', ''z.txt''].
                              q = [''root'', f])
                   then Some (fileStats 5) else None),
      readFile = (\<lambda>q. None),
      readdir = (\<lambda>q. if q = [''root'']
                     then Some [''docs'', ''w.txt'', ''x.txt'', ''y.txt'', ''z.txt'']
                     else if q = [''root'', ''docs''] then Some [''guide.md'']
                     else None),
      ignores = literalIgnores,
      localeCompare = collate\<rparr>"

definition hiddenTwo :: TreeOptions where
  "hiddenTwo = \<lparr>maxLeaf = Some 3, ignorePatterns = Some [''x.txt'', ''y.txt'']\<rparr>"

definition visibleTree :: TreeNode where
  "visibleTree =
     TreeNode ''root'' [''root''] Folder
       (Some [TreeNode ''docs'' [''root'', ''docs''] Folder
                (Some [TreeNode ''guide.md'' [''root'', ''docs'', ''guide.md''] File None
                         None (Some 5)])
                None None,
              TreeNode ''w.txt'' [''root'', ''w.txt''] File None None (Some 5),
              TreeNode ''z.txt'' [''root'', ''z.txt''] File None None (Some 5)])
       None None"

text \<open>What the scans of those two directories give.\<close>

definition largeCands :: "TreeOptions \<Rightarrow> Candidate list" where
  "largeCands options =
     projr (scanCandidates largeDirEnv [''root'', ''large-dir'']
              (pushLevel largeDirEnv [''root'', ''large-dir''] options (largeDirStack options))
              largeNames)"

definition visibleCands :: "Candidate list" where
  "visibleCands =
     projr (scanCandidates visibleEnv [''root''] (pushLevel visibleEnv [''root''] hiddenTwo [])
              [''docs'', ''w.txt'', ''x.txt'', ''y.txt'', ''z.txt''])"






section \<open>Properties of getSummary\<close>

lemma addCounts_Nil: "addCounts [] s = s"
  by (simp add: addCounts_def)

lemma addCounts_append: "addCounts (xs @ ys) s = addCounts ys (addCounts xs s)"
  by (simp add: addCounts_def)

lemma fold_traverse_counts:
  assumes "\<And>c s. c \<in> set cs \<Longrightarrow> traverse c s = addCounts (nodes c) s"
  shows "fold traverse cs s = addCounts (concat (map nodes cs)) s"
  using assms
proof (induction cs arbitrary: s)
  case Nil
  show ?case by (simp add: addCounts_Nil)
next
  case (Cons c cs)
  have "fold traverse (c # cs) s = fold traverse cs (traverse c s)" by simp
  also have "\<dots> = fold traverse cs (addCounts (nodes c) s)"
    using Cons.prems by simp
  also have "\<dots> = addCounts (concat (map nodes cs)) (addCounts (nodes c) s)"
    using Cons.IH Cons.prems by simp
  finally show ?case by (simp add: addCounts_append)
qed

lemma traverse_counts: "traverse n s = addCounts (nodes n) s"
proof (induction n s rule: traverse.induct)
  case (1 nm p t ch sk st summary)
  show ?case
  proof (cases ch)
    case None
    then show ?thesis
      by (cases t; cases sk) (auto simp: addCounts_def Let_def)
  next
    case (Some cs)
    let ?s1 = "addCounts [TreeNode nm p t ch sk st] summary"
    have s1: "(if t = Folder then
           (let a = summary\<lparr>totalFolders := totalFolders summary + 1\<rparr>;
                b = (if sk = Some SkippedGitignore
                     then a\<lparr>skippedGitignore := skippedGitignore a + 1\<rparr> else a)
            in (if sk = Some SkippedSize
                then b\<lparr>skippedSize := skippedSize b + 1\<rparr> else b))
         else summary\<lparr>totalFiles := totalFiles summary + 1\<rparr>) = ?s1"
      by (cases t; cases sk) (auto simp: addCounts_def Let_def)
    have "fold traverse cs ?s1 = addCounts (concat (map nodes cs)) ?s1"
      by (rule fold_traverse_counts) (use 1 Some s1 in auto)
    then show ?thesis
      using Some s1 by (simp add: Let_def addCounts_append [symmetric])
  qed
qed

lemma getSummary_counts:
  "getSummary t =
     addCounts (nodes t)
       \<lparr>totalFiles = 0, totalFolders = 0, skippedGitignore = 0, skippedSize = 0\<rparr>"
  by (simp add: getSummary_def traverse_counts)

text \<open>
  C8. \<^verbatim>\<open>getSummary\<close> counts every node of kind folder, the root included, once in
  \<open>totalFolders\<close> and every node of kind file once in \<open>totalFiles\<close>; a folder
  skipped by an ignore rule is counted in \<open>skippedGitignore\<close> as well, one skipped
  for its size in \<open>skippedSize\<close>. On the tree of the test suite (one file, one
  folder with one file, one folder of each skip reason) the summary is 2 files,
  4 folders, 1 and 1.
\<close>

theorem getSummary_counts_nodes:
  "totalFolders (getSummary t) = length (filter (\<lambda>n. type n = Folder) (nodes t)) \<and>
   totalFiles (getSummary t) = length (filter (\<lambda>n. type n = File) (nodes t)) \<and>
   skippedGitignore (getSummary t) =
     length (filter (\<lambda>n. type n = Folder \<and> skipped n = Some SkippedGitignore) (nodes t)) \<and>
   skippedSize (getSummary t) =
     length (filter (\<lambda>n. type n = Folder \<and> skipped n = Some SkippedSize) (nodes t)) \<and>
   getSummary summaryTree =
     \<lparr>totalFiles = 2, totalFolders = 4, skippedGitignore = 1, skippedSize = 1\<rparr>"
  by (simp add: getSummary_counts addCounts_def summaryTree_def)

text \<open>
  C10. Only folder nodes reach the two skip counters: in a tree whose folders carry
  no \<^verbatim>\<open>skipped\<close> marker, whatever markers its file nodes carry, both skip counters
  are 0 and every file node is counted in \<open>totalFiles\<close>.
\<close>

theorem getSummary_ignores_file_markers:
  assumes "\<forall>n \<in> set (nodes t). type n = Folder \<longrightarrow> skipped n = None"
  shows "skippedGitignore (getSummary t) = 0 \<and> skippedSize (getSummary t) = 0 \<and>
         totalFiles (getSummary t) = length (filter (\<lambda>n. type n = File) (nodes t))"
proof -
  have "filter (\<lambda>n. type n = Folder \<and> skipped n = Some SkippedGitignore) (nodes t) = []"
    using assms by (auto simp: filter_empty_conv)
  moreover
  have "filter (\<lambda>n. type n = Folder \<and> skipped n = Some SkippedSize) (nodes t) = []"
    using assms by (auto simp: filter_empty_conv)
  ultimately show ?thesis
    by (simp add: getSummary_counts addCounts_def)
qed

theorem getSummary_ignores_file_markers_witness:
  "map skipped (the (children markedFilesTree)) =
     [Some SkippedGitignore, Some SkippedSize] \<and>
   skippedGitignore (getSummary markedFilesTree) = 0 \<and>
   skippedSize (getSummary markedFilesTree) = 0 \<and>
   totalFiles (getSummary markedFilesTree) = 2"
proof -
  have h: "\<forall>n \<in> set (nodes markedFilesTree). type n = Folder \<longrightarrow> skipped n = None"
    by (simp add: markedFilesTree_def)
  show ?thesis
    using getSummary_ignores_file_markers [OF h] by (simp add: markedFilesTree_def)
qed

section \<open>Single calls of buildTree\<close>

lemma buildTree_lstat_fails:
  "lstat E p = None \<Longrightarrow>
   buildTree (Suc fuel) E p options st =
     Some (Inr (TreeNode (path_basename p) p File None None (Some 0)))"
  by simp

lemma buildTree_symlink:
  "lstat E p = Some s \<Longrightarrow> isSymbolicLink s \<Longrightarrow>
   buildTree (Suc fuel) E p options st =
     Some (Inr (TreeNode (path_basename p) p File None None (Some 0)))"
  by simp

lemma buildTree_file:
  "lstat E p = Some s \<Longrightarrow> \<not> isSymbolicLink s \<Longrightarrow> \<not> isDirectory s \<Longrightarrow>
   buildTree (Suc fuel) E p options st =
     Some (Inr (TreeNode (path_basename p) p File None None (Some (st_size s))))"
  by simp

lemma buildTree_readdir_fails:
  "lstat E p = Some s \<Longrightarrow> \<not> isSymbolicLink s \<Longrightarrow> isDirectory s \<Longrightarrow>
   readdir E p = None \<Longrightarrow>
   buildTree (Suc fuel) E p options st =
     Some (Inr (TreeNode (path_basename p) p Folder (Some []) None None))"
  by simp

lemma buildTree_scan_throws:
  "lstat E p = Some s \<Longrightarrow> \<not> isSymbolicLink s \<Longrightarrow> isDirectory s \<Longrightarrow>
   readdir E p = Some items \<Longrightarrow>
   scanCandidates E p (pushLevel E p options st) items = Inl e \<Longrightarrow>
   buildTree (Suc fuel) E p options st = Some (Inl e)"
  by simp

lemma buildTree_collapsed:
  "lstat E p = Some s \<Longrightarrow> \<not> isSymbolicLink s \<Longrightarrow> isDirectory s \<Longrightarrow>
   readdir E p = Some items \<Longrightarrow>
   scanCandidates E p (pushLevel E p options st) items = Inr cands \<Longrightarrow>
   exceedsMaxLeaf options (visibleCount cands) \<Longrightarrow>
   buildTree (Suc fuel) E p options st =
     Some (Inr (TreeNode (path_basename p) p Folder None (Some SkippedSize) None))"
  by simp

lemma buildTree_expanded:
  "lstat E p = Some s \<Longrightarrow> \<not> isSymbolicLink s \<Longrightarrow> isDirectory s \<Longrightarrow>
   readdir E p = Some items \<Longrightarrow>
   scanCandidates E p (pushLevel E p options st) items = Inr cands \<Longrightarrow>
   \<not> exceedsMaxLeaf options (visibleCount cands) \<Longrightarrow>
   buildTree (Suc fuel) E p options st =
     map_option
       (map_sum id
          (\<lambda>cs. TreeNode (path_basename p) p Folder
                   (Some (array_sort (compareNodes E) cs)) None None))
       (buildChildren (\<lambda>q. buildTree fuel E q options (pushLevel E p options st)) cands)"
  by (simp add: Let_def split: option.splits sum.splits)

text \<open>The shape of a result, by the branch of the source that produced it.\<close>

lemma buildTree_result_cases:
  assumes "buildTree fuel E p options st = Some (Inr t)"
  obtains
    (leaf) sz where "t = TreeNode (path_basename p) p File None None (Some sz)"
      and "\<forall>s. lstat E p = Some s \<longrightarrow> isSymbolicLink s \<or> \<not> isDirectory s"
  | (unreadable) s where "lstat E p = Some s" "\<not> isSymbolicLink s" "isDirectory s"
      "readdir E p = None"
      "t = TreeNode (path_basename p) p Folder (Some []) None None"
  | (collapsed) s items cands where "lstat E p = Some s" "\<not> isSymbolicLink s"
      "isDirectory s" "readdir E p = Some items"
      "scanCandidates E p (pushLevel E p options st) items = Inr cands"
      "exceedsMaxLeaf options (visibleCount cands)"
      "t = TreeNode (path_basename p) p Folder None (Some SkippedSize) None"
  | (expanded) s items cands fuel' cs where "fuel = Suc fuel'"
      "lstat E p = Some s" "\<not> isSymbolicLink s" "isDirectory s"
      "readdir E p = Some items"
      "scanCandidates E p (pushLevel E p options st) items = Inr cands"
      "\<not> exceedsMaxLeaf options (visibleCount cands)"
      "buildChildren (\<lambda>q. buildTree fuel' E q options (pushLevel E p options st)) cands
         = Some (Inr cs)"
      "t = TreeNode (path_basename p) p Folder
             (Some (array_sort (compareNodes E) cs)) None None"
proof (cases fuel)
  case 0
  with assms show ?thesis by simp
next
  case (Suc n)
  show ?thesis
  proof (cases "lstat E p")
    case None
    with assms Suc leaf show ?thesis by auto
  next
    case (Some s)
    show ?thesis
    proof (cases "isSymbolicLink s \<or> \<not> isDirectory s")
      case True
      with assms Suc Some leaf show ?thesis by (auto simp: Let_def split: if_splits)
    next
      case False
      then have d: "\<not> isSymbolicLink s" "isDirectory s" by auto
      show ?thesis
      proof (cases "readdir E p")
        case None
        with assms Suc Some d unreadable show ?thesis by (auto simp: Let_def)
      next
        case rd: (Some items)
        show ?thesis
        proof (cases "scanCandidates E p (pushLevel E p options st) items")
          case (Inl e)
          from assms Suc have "buildTree (Suc n) E p options st = Some (Inr t)" by simp
          then show ?thesis
            unfolding buildTree_scan_throws [OF Some d rd Inl] by simp
        next
          case (Inr cands)
          show ?thesis
          proof (cases "exceedsMaxLeaf options (visibleCount cands)")
            case True
            from assms Suc have "buildTree (Suc n) E p options st = Some (Inr t)" by simp
            then have "t = TreeNode (path_basename p) p Folder None (Some SkippedSize) None"
              unfolding buildTree_collapsed [OF Some d rd Inr True] by simp
            with Some d rd Inr True collapsed show ?thesis by blast
          next
            case False
            from assms Suc have "buildTree (Suc n) E p options st = Some (Inr t)" by simp
            then obtain z where
              z: "buildChildren (\<lambda>q. buildTree n E q options (pushLevel E p options st)) cands
                 = Some z"
              and zt: "map_sum id (\<lambda>cs. TreeNode (path_basename p) p Folder
                     (Some (array_sort (compareNodes E) cs)) None None) z = Inr t"
              unfolding buildTree_expanded [OF Some d rd Inr False] by auto
            from zt obtain cs where "z = Inr cs"
              "t = TreeNode (path_basename p) p Folder
                     (Some (array_sort (compareNodes E) cs)) None None"
              by (cases z) auto
            with z have
              "buildChildren (\<lambda>q. buildTree n E q options (pushLevel E p options st)) cands
                 = Some (Inr cs)"
              "t = TreeNode (path_basename p) p Folder
                     (Some (array_sort (compareNodes E) cs)) None None"
              by simp_all
            with Suc Some d rd Inr False expanded show ?thesis by blast
          qed
        qed
      qed
    qed
  qed
qed

section \<open>The parts of buildTree\<close>

subsection \<open>The sort\<close>

lemma set_insert_by: "set (insert_by cmp x ys) = insert x (set ys)"
  by (induction ys) auto

lemma set_array_sort: "set (array_sort cmp xs) = set xs"
  unfolding array_sort_def by (induction xs) (auto simp: set_insert_by)

lemma length_insert_by: "length (insert_by cmp x ys) = Suc (length ys)"
  by (induction ys) auto

lemma length_array_sort: "length (array_sort cmp xs) = length xs"
  unfolding array_sort_def by (induction xs) (auto simp: length_insert_by)

lemma sorted_insert_by:
  assumes trans: "\<And>a b c. cmp a b \<le> 0 \<Longrightarrow> cmp b c \<le> 0 \<Longrightarrow> cmp a c \<le> 0"
    and total: "\<And>a b. cmp a b \<le> 0 \<or> cmp b a \<le> 0"
    and "sorted_wrt (\<lambda>a b. cmp a b \<le> 0) ys"
  shows "sorted_wrt (\<lambda>a b. cmp a b \<le> 0) (insert_by cmp x ys)"
  using assms(3)
proof (induction ys)
  case Nil
  show ?case by simp
next
  case (Cons y ys)
  show ?case
  proof (cases "cmp x y \<le> 0")
    case True
    have "\<forall>z \<in> set ys. cmp x z \<le> 0"
      using Cons.prems True trans by auto
    with True Cons.prems show ?thesis by simp
  next
    case False
    with total have "cmp y x \<le> 0" by blast
    with False Cons show ?thesis by (auto simp: set_insert_by)
  qed
qed

lemma sorted_array_sort:
  assumes "\<And>a b c. cmp a b \<le> 0 \<Longrightarrow> cmp b c \<le> 0 \<Longrightarrow> cmp a c \<le> 0"
    and "\<And>a b. cmp a b \<le> 0 \<or> cmp b a \<le> 0"
  shows "sorted_wrt (\<lambda>a b. cmp a b \<le> 0) (array_sort cmp xs)"
proof (induction xs)
  case Nil
  show ?case by (simp add: array_sort_def)
next
  case (Cons x xs)
  have "sorted_wrt (\<lambda>a b. cmp a b \<le> 0) (insert_by cmp x (array_sort cmp xs))"
    using assms(1) assms(2) Cons.IH by (rule sorted_insert_by)
  then show ?case by (simp add: array_sort_def)
qed

lemma compareNodes_trans:
  assumes tr: "\<forall>a b c. localeCompare E a b \<le> 0 \<and> localeCompare E b c \<le> 0
             \<longrightarrow> localeCompare E a c \<le> 0"
    and xy: "compareNodes E x y \<le> 0" and yz: "compareNodes E y z \<le> 0"
  shows "compareNodes E x z \<le> 0"
proof (cases "type x = type z")
  case False
  with xy yz show ?thesis
    by (cases "type x"; cases "type y"; cases "type z") (simp_all add: compareNodes_def)
next
  case True
  show ?thesis
  proof (cases "type y = type x")
    case same: True
    with True xy yz have "localeCompare E (name x) (name y) \<le> 0"
      "localeCompare E (name y) (name z) \<le> 0"
      by (simp_all add: compareNodes_def)
    with tr have "localeCompare E (name x) (name z) \<le> 0" by blast
    with True show ?thesis by (simp add: compareNodes_def)
  next
    case False
    with True xy yz show ?thesis
      by (cases "type x"; cases "type y"; cases "type z") (simp_all add: compareNodes_def)
  qed
qed

lemma compareNodes_total:
  assumes "\<forall>a b. localeCompare E a b \<le> 0 \<or> localeCompare E b a \<le> 0"
  shows "compareNodes E x y \<le> 0 \<or> compareNodes E y x \<le> 0"
proof (cases "type x = type y")
  case True
  with assms show ?thesis by (simp add: compareNodes_def)
next
  case False
  then show ?thesis
    by (cases "type x"; cases "type y") (simp_all add: compareNodes_def)
qed

lemma compareNodes_le_iff:
  "compareNodes E a b \<le> 0 \<longleftrightarrow>
     (type a = Folder \<or> type b = File) \<and>
     (type a = type b \<longrightarrow> localeCompare E (name a) (name b) \<le> 0)"
  by (cases "type a"; cases "type b") (auto simp: compareNodes_def)

subsection \<open>The scan\<close>


lemma checkIgnored_returns:
  assumes "\<forall>ig rel. \<exists>b. ignores E ig rel = Inr b"
  shows "\<exists>b. checkIgnored E st q s = Inr b"
proof (induction st)
  case Nil
  show ?case by auto
next
  case (Cons lvl rest)
  let ?rel = "path_relative (basePath lvl) q"
  from assms obtain b1 b2 where "ignores E (ignorer lvl) ?rel = Inr b1"
    "ignores E (ignorer lvl) (?rel @ ''/'') = Inr b2" by metis
  with Cons show ?case
    by (cases b1; cases b2; cases "isDirectory s") (auto simp: Let_def)
qed

lemma scanCandidates_elem:
  "scanCandidates E p st items = Inr cands \<Longrightarrow> cand \<in> set cands \<Longrightarrow>
     cand_name cand \<in> set items \<and>
     cand_path cand = path_join p (cand_name cand) \<and>
     lstat E (cand_path cand) = Some (cand_stats cand) \<and>
     \<not> isSymbolicLink (cand_stats cand) \<and>
     checkIgnored E st (cand_path cand) (cand_stats cand) = Inr (isIgnored cand)"
proof (induction items arbitrary: cands)
  case Nil
  then show ?case by simp
next
  case (Cons item items)
  show ?case
  proof (cases "lstat E (path_join p item)")
    case None
    with Cons show ?thesis by (auto simp: Let_def)
  next
    case (Some s)
    show ?thesis
    proof (cases "isSymbolicLink s")
      case True
      with Some Cons show ?thesis by (auto simp: Let_def)
    next
      case False
      with Some Cons.prems(1) obtain b rest where
        b: "checkIgnored E st (path_join p item) s = Inr b"
        and rest: "scanCandidates E p st items = Inr rest"
        and cands: "cands = \<lparr>cand_name = item, cand_path = path_join p item,
                             isIgnored = b, cand_stats = s\<rparr> # rest"
        by (auto simp: Let_def split: sum.splits)
      from Cons.prems(2) cands consider
        "cand = \<lparr>cand_name = item, cand_path = path_join p item,
                  isIgnored = b, cand_stats = s\<rparr>" | "cand \<in> set rest"
        by auto
      then show ?thesis
      proof cases
        case 1
        with Some False b show ?thesis by simp
      next
        case 2
        from Cons.IH [OF rest 2] show ?thesis by auto
      qed
    qed
  qed
qed

lemma scanCandidates_mem:
  "scanCandidates E p st items = Inr cands \<Longrightarrow> item \<in> set items \<Longrightarrow>
   lstat E (path_join p item) = Some s \<Longrightarrow> \<not> isSymbolicLink s \<Longrightarrow>
   \<exists>b. checkIgnored E st (path_join p item) s = Inr b \<and>
       \<lparr>cand_name = item, cand_path = path_join p item, isIgnored = b, cand_stats = s\<rparr>
         \<in> set cands"
proof (induction items arbitrary: cands)
  case Nil
  then show ?case by simp
next
  case (Cons a items)
  show ?case
  proof (cases "lstat E (path_join p a)")
    case None
    with Cons show ?thesis by (auto simp: Let_def)
  next
    case (Some sa)
    show ?thesis
    proof (cases "isSymbolicLink sa")
      case True
      with Some Cons show ?thesis by (auto simp: Let_def)
    next
      case False
      with Some Cons.prems(1) obtain b rest where
        b: "checkIgnored E st (path_join p a) sa = Inr b"
        and rest: "scanCandidates E p st items = Inr rest"
        and cands: "cands = \<lparr>cand_name = a, cand_path = path_join p a,
                             isIgnored = b, cand_stats = sa\<rparr> # rest"
        by (auto simp: Let_def split: sum.splits)
      show ?thesis
      proof (cases "a = item")
        case True
        with Some Cons.prems(3) b cands show ?thesis by auto
      next
        case ne: False
        with Cons.prems(2) have "item \<in> set items" by simp
        from Cons.IH [OF rest this Cons.prems(3,4)] cands show ?thesis by auto
      qed
    qed
  qed
qed

lemma scanCandidates_returns:
  assumes "\<forall>ig rel. \<exists>b. ignores E ig rel = Inr b"
  shows "\<exists>cands. scanCandidates E p st items = Inr cands"
proof (induction items)
  case Nil
  show ?case by simp
next
  case (Cons item items)
  then obtain rest where rest: "scanCandidates E p st items = Inr rest" by blast
  show ?case
  proof (cases "lstat E (path_join p item)")
    case None
    with rest show ?thesis by (simp add: Let_def)
  next
    case (Some s)
    from checkIgnored_returns [OF assms] obtain b where
      "checkIgnored E st (path_join p item) s = Inr b" by blast
    with Some rest show ?thesis by (simp add: Let_def)
  qed
qed

lemma visibleCount_entries:
  "scanCandidates E p st items = Inr cands \<Longrightarrow>
   visibleCount cands =
     length (filter (\<lambda>item. case lstat E (path_join p item) of
                         None \<Rightarrow> False
                       | Some s' \<Rightarrow> \<not> isSymbolicLink s' \<and>
                                   checkIgnored E st (path_join p item) s' = Inr False)
               items)"
proof (induction items arbitrary: cands)
  case Nil
  then show ?case by (simp add: visibleCount_def)
next
  case (Cons item items)
  show ?case
  proof (cases "lstat E (path_join p item)")
    case None
    with Cons show ?thesis by (simp add: Let_def)
  next
    case (Some s)
    show ?thesis
    proof (cases "isSymbolicLink s")
      case True
      with Some Cons show ?thesis by (simp add: Let_def)
    next
      case False
      with Some Cons.prems obtain b rest where
        b: "checkIgnored E st (path_join p item) s = Inr b"
        and rest: "scanCandidates E p st items = Inr rest"
        and cands: "cands = \<lparr>cand_name = item, cand_path = path_join p item,
                             isIgnored = b, cand_stats = s\<rparr> # rest"
        by (auto simp: Let_def split: sum.splits)
      from Cons.IH [OF rest] Some False b cands show ?thesis
        by (simp add: visibleCount_def)
    qed
  qed
qed

subsection \<open>The children\<close>

lemma pushNode_Inr:
  "pushNode n r = Some (Inr cs) \<longleftrightarrow> (\<exists>rest. r = Some (Inr rest) \<and> cs = n # rest)"
  by (cases r; cases "the r") (auto simp: pushNode_def)

lemma buildChildren_elem_cases:
  assumes "buildChildren recurse cands = Some (Inr cs)" and "c \<in> set cs"
  obtains
    (stub) cand where "cand \<in> set cands" "isIgnored cand" "isDirectory (cand_stats cand)"
      "c = TreeNode (cand_name cand) (cand_path cand) Folder None (Some SkippedGitignore) None"
  | (sub) cand where "cand \<in> set cands" "\<not> isIgnored cand" "isDirectory (cand_stats cand)"
      "recurse (cand_path cand) = Some (Inr c)"
  | (leaf) cand where "cand \<in> set cands" "\<not> isIgnored cand"
      "\<not> isDirectory (cand_stats cand)"
      "c = TreeNode (cand_name cand) (cand_path cand) File None None
             (Some (st_size (cand_stats cand)))"
proof -
  have "(\<exists>cand \<in> set cands.
      (isIgnored cand \<and> isDirectory (cand_stats cand) \<and>
         c = TreeNode (cand_name cand) (cand_path cand) Folder None
               (Some SkippedGitignore) None) \<or>
      (\<not> isIgnored cand \<and> isDirectory (cand_stats cand) \<and>
         recurse (cand_path cand) = Some (Inr c)) \<or>
      (\<not> isIgnored cand \<and> \<not> isDirectory (cand_stats cand) \<and>
         c = TreeNode (cand_name cand) (cand_path cand) File None None
               (Some (st_size (cand_stats cand)))))"
    using assms
  proof (induction cands arbitrary: cs)
    case Nil
    then show ?case by simp
  next
    case (Cons cand cands)
    show ?case
    proof (cases "isIgnored cand")
      case True
      with Cons show ?thesis
        by (cases "isDirectory (cand_stats cand)") (auto simp: pushNode_Inr)
    next
      case False
      show ?thesis
      proof (cases "isDirectory (cand_stats cand)")
        case True
        with Cons False show ?thesis
          by (auto simp: pushNode_Inr split: option.splits sum.splits)
      next
        case F2: False
        with Cons False show ?thesis by (auto simp: pushNode_Inr)
      qed
    qed
  qed
  then show ?thesis using stub sub leaf by blast
qed

lemma buildChildren_mem:
  "buildChildren recurse cands = Some (Inr cs) \<Longrightarrow> cand \<in> set cands \<Longrightarrow>
   (isIgnored cand \<and> isDirectory (cand_stats cand) \<longrightarrow>
      TreeNode (cand_name cand) (cand_path cand) Folder None (Some SkippedGitignore) None
        \<in> set cs) \<and>
   (\<not> isIgnored cand \<and> isDirectory (cand_stats cand) \<longrightarrow>
      (\<exists>c \<in> set cs. recurse (cand_path cand) = Some (Inr c))) \<and>
   (\<not> isIgnored cand \<and> \<not> isDirectory (cand_stats cand) \<longrightarrow>
      TreeNode (cand_name cand) (cand_path cand) File None None
        (Some (st_size (cand_stats cand))) \<in> set cs)"
proof (induction cands arbitrary: cs)
  case Nil
  then show ?case by simp
next
  case (Cons a cands)
  show ?case
  proof (cases "isIgnored a")
    case True
    with Cons show ?thesis
      by (cases "isDirectory (cand_stats a)") (auto simp: pushNode_Inr)
  next
    case False
    show ?thesis
    proof (cases "isDirectory (cand_stats a)")
      case True
      with Cons False show ?thesis
        by (auto simp: pushNode_Inr split: option.splits sum.splits)
    next
      case F2: False
      with Cons False show ?thesis by (auto simp: pushNode_Inr)
    qed
  qed
qed

lemma length_buildChildren:
  "buildChildren recurse cands = Some (Inr cs) \<Longrightarrow>
   length cs =
     length (filter (\<lambda>c. \<not> isIgnored c) cands) +
     length (filter (\<lambda>c. isIgnored c \<and> isDirectory (cand_stats c)) cands)"
proof (induction cands arbitrary: cs)
  case Nil
  then show ?case by simp
next
  case (Cons a cands)
  show ?case
  proof (cases "isIgnored a")
    case True
    with Cons show ?thesis
      by (cases "isDirectory (cand_stats a)") (auto simp: pushNode_Inr)
  next
    case False
    show ?thesis
    proof (cases "isDirectory (cand_stats a)")
      case True
      with Cons False show ?thesis
        by (auto simp: pushNode_Inr split: option.splits sum.splits)
    next
      case F2: False
      with Cons False show ?thesis by (auto simp: pushNode_Inr)
    qed
  qed
qed

lemma buildChildren_total:
  "(\<And>cand. cand \<in> set cands \<Longrightarrow> \<not> isIgnored cand \<Longrightarrow> isDirectory (cand_stats cand) \<Longrightarrow>
      \<exists>c. recurse (cand_path cand) = Some (Inr c)) \<Longrightarrow>
   \<exists>cs. buildChildren recurse cands = Some (Inr cs)"
proof (induction cands)
  case Nil
  show ?case by simp
next
  case (Cons cand cands)
  then obtain cs where "buildChildren recurse cands = Some (Inr cs)" by auto
  moreover have "\<not> isIgnored cand \<Longrightarrow> isDirectory (cand_stats cand) \<Longrightarrow>
      \<exists>c. recurse (cand_path cand) = Some (Inr c)"
    using Cons.prems by simp
  ultimately show ?case by (auto simp: pushNode_def)
qed

section \<open>The nodes of a result\<close>

lemma nodes_root: "t \<in> set (nodes t)"
  by (cases t) simp

lemma nodes_leaf: "children t = None \<Longrightarrow> nodes t = [t]"
  by (cases t) simp


text \<open>
  Every node of a result is the result of some call of \<^verbatim>\<open>buildTree\<close>, the stub of
  an ignored directory or the node of a file.
\<close>

lemma buildTree_nodes_induct:
  assumes "buildTree fuel E p options st = Some (Inr t)" and "n \<in> set (nodes t)"
    and call: "\<And>fuel p st t. buildTree fuel E p options st = Some (Inr t) \<Longrightarrow> P t"
    and stub: "\<And>nm q. P (TreeNode nm q Folder None (Some SkippedGitignore) None)"
    and leaf: "\<And>nm q sz. P (TreeNode nm q File None None (Some sz))"
  shows "P n"
  using assms(1,2)
proof (induction fuel arbitrary: p st t)
  case 0
  then show ?case by simp
next
  case (Suc fuel)
  from Suc.prems(1) show ?case
  proof (cases rule: buildTree_result_cases)
    case (leaf sz)
    with Suc.prems(2) show ?thesis using assms(5) by simp
  next
    case (unreadable s)
    with Suc.prems(2) have "n = t" by simp
    with call [OF Suc.prems(1)] show ?thesis by simp
  next
    case (collapsed s items cands)
    with Suc.prems(2) have "n = t" by simp
    with call [OF Suc.prems(1)] show ?thesis by simp
  next
    case (expanded s items cands fuel' cs)
    then have f: "fuel' = fuel" by simp
    from expanded(9) Suc.prems(2)
    consider "n = t" | c where "c \<in> set cs" "n \<in> set (nodes c)"
      by (auto simp: set_array_sort)
    then show ?thesis
    proof cases
      case 1
      with Suc.prems(1) call show ?thesis by blast
    next
      case 2
      from expanded(8) 2(1) show ?thesis
      proof (cases rule: buildChildren_elem_cases)
        case (stub cand)
        with 2(2) assms(4) show ?thesis by simp
      next
        case (sub cand)
        with f 2(2) Suc.IH show ?thesis by blast
      next
        case (leaf cand)
        with 2(2) assms(5) show ?thesis by simp
      qed
    qed
  qed
qed

text \<open>
  Where the nodes of a result lie: below the path of the call, and every path from
  there down to the node is one that \<^verbatim>\<open>lstat\<close> resolved to something other than a
  symbolic link.
\<close>

lemma buildTree_nodes_below:
  assumes "buildTree fuel E p options st = Some (Inr t)" and "n \<in> set (nodes t)"
  shows "\<exists>r. path n = p @ r \<and> (r = [] \<longrightarrow> n = t) \<and>
           (\<forall>k. 0 < k \<and> k \<le> length r \<longrightarrow>
              (\<exists>s. lstat E (p @ take k r) = Some s \<and> \<not> isSymbolicLink s))"
  using assms
proof (induction fuel arbitrary: p st t)
  case 0
  then show ?case by simp
next
  case (Suc fuel)
  from Suc.prems(1) show ?case
  proof (cases rule: buildTree_result_cases)
    case (leaf sz)
    with Suc.prems(2) show ?thesis by simp
  next
    case (unreadable s)
    with Suc.prems show ?thesis by auto
  next
    case (collapsed s items cands)
    with Suc.prems show ?thesis by auto
  next
    case (expanded s items cands fuel' cs)
    then have f: "fuel' = fuel" by simp
    from expanded(9) Suc.prems(2)
    consider "n = t" | c where "c \<in> set cs" "n \<in> set (nodes c)"
      by (auto simp: set_array_sort)
    then show ?thesis
    proof cases
      case 1
      with expanded(9) show ?thesis by simp
    next
      case 2
      have direct: ?thesis
        if cand: "cand \<in> set cands"
          and "n = c" "path c = cand_path cand" for cand
      proof -
        from scanCandidates_elem [OF expanded(6) cand]
        have cp: "cand_path cand = p @ [cand_name cand]"
          and ls: "lstat E (p @ [cand_name cand]) = Some (cand_stats cand)"
          and ns: "\<not> isSymbolicLink (cand_stats cand)"
          by (auto simp: path_join_def)
        have "path n = p @ [cand_name cand]" using that cp by simp
        moreover have "[cand_name cand] = [] \<longrightarrow> n = t" by simp
        moreover have "\<forall>k. 0 < k \<and> k \<le> length [cand_name cand] \<longrightarrow>
              (\<exists>s. lstat E (p @ take k [cand_name cand]) = Some s \<and> \<not> isSymbolicLink s)"
          using ls ns by auto
        ultimately show ?thesis by blast
      qed
      from expanded(8) 2(1) show ?thesis
      proof (cases rule: buildChildren_elem_cases)
        case (stub cand)
        with 2(2) direct [of cand] show ?thesis by simp
      next
        case (leaf cand)
        with 2(2) direct [of cand] show ?thesis by simp
      next
        case (sub cand)
        from scanCandidates_elem [OF expanded(6) sub(1)]
        have cp: "cand_path cand = p @ [cand_name cand]"
          and ls: "lstat E (p @ [cand_name cand]) = Some (cand_stats cand)"
          and ns: "\<not> isSymbolicLink (cand_stats cand)"
          by (auto simp: path_join_def)
        from Suc.IH [OF sub(4) [unfolded f] 2(2)] obtain r where
          r: "path n = cand_path cand @ r"
          and rk: "\<forall>k. 0 < k \<and> k \<le> length r \<longrightarrow>
              (\<exists>s. lstat E (cand_path cand @ take k r) = Some s \<and> \<not> isSymbolicLink s)"
          by blast
        have "path n = p @ (cand_name cand # r)" using r cp by simp
        moreover have "cand_name cand # r = [] \<longrightarrow> n = t" by simp
        moreover have "\<exists>s. lstat E (p @ take k (cand_name cand # r)) = Some s \<and> \<not> isSymbolicLink s"
          if k: "0 < k" "k \<le> length (cand_name cand # r)" for k
        proof (cases k)
          case 0
          with k show ?thesis by simp
        next
          case (Suc j)
          show ?thesis
          proof (cases j)
            case 0
            with Suc ls ns show ?thesis by simp
          next
            case (Suc i)
            with \<open>k = Suc j\<close> k rk cp show ?thesis by auto
          qed
        qed
        ultimately show ?thesis by blast
      qed
    qed
  qed
qed

section \<open>The depth bound\<close>

text \<open>
  A call that has returned, with a node or with an error, returns the same under
  every larger depth bound, so the bound decides only whether a result is there,
  never which.
\<close>

lemma buildChildren_mono:
  assumes "\<And>q r. recurse q = Some r \<Longrightarrow> recurse' q = Some r"
  shows "buildChildren recurse cands = Some z \<Longrightarrow> buildChildren recurse' cands = Some z"
proof (induction cands arbitrary: z)
  case Nil
  then show ?case by simp
next
  case (Cons cand cands)
  show ?case
  proof (cases "\<not> isIgnored cand \<and> isDirectory (cand_stats cand)")
    case True
    with Cons.prems obtain r where r: "recurse (cand_path cand) = Some r"
      by (cases "recurse (cand_path cand)") auto
    with assms have r': "recurse' (cand_path cand) = Some r" by simp
    show ?thesis
    proof (cases r)
      case (Inl e)
      with True r r' Cons.prems show ?thesis by simp
    next
      case (Inr sub)
      with True r Cons.prems obtain z' where "buildChildren recurse cands = Some z'"
        "z = map_sum id ((#) sub) z'"
        by (auto simp: pushNode_def)
      with Cons.IH True r' Inr show ?thesis by (simp add: pushNode_def)
    qed
  next
    case False
    then consider "isIgnored cand" "isDirectory (cand_stats cand)"
      | "isIgnored cand" "\<not> isDirectory (cand_stats cand)"
      | "\<not> isIgnored cand" "\<not> isDirectory (cand_stats cand)" by blast
    then show ?thesis
    proof cases
      case 1
      with Cons.prems obtain z' where "buildChildren recurse cands = Some z'"
        "z = map_sum id ((#) (TreeNode (cand_name cand) (cand_path cand) Folder None
                (Some SkippedGitignore) None)) z'"
        by (auto simp: pushNode_def)
      with Cons.IH 1 show ?thesis by (simp add: pushNode_def)
    next
      case 2
      with Cons show ?thesis by simp
    next
      case 3
      with Cons.prems obtain z' where "buildChildren recurse cands = Some z'"
        "z = map_sum id ((#) (TreeNode (cand_name cand) (cand_path cand) File None None
             (Some (st_size (cand_stats cand))))) z'"
        by (auto simp: pushNode_def)
      with Cons.IH 3 show ?thesis by (simp add: pushNode_def)
    qed
  qed
qed

lemma buildTree_Suc_fuel:
  "buildTree fuel E p options st = Some r \<Longrightarrow> buildTree (Suc fuel) E p options st = Some r"
proof (induction fuel arbitrary: p st r)
  case 0
  then show ?case by simp
next
  case (Suc fuel)
  show ?case
  proof (cases "\<exists>s items cands. lstat E p = Some s \<and> \<not> isSymbolicLink s \<and> isDirectory s \<and>
      readdir E p = Some items \<and>
      scanCandidates E p (pushLevel E p options st) items = Inr cands \<and>
      \<not> exceedsMaxLeaf options (visibleCount cands)")
    case True
    then obtain s items cands where h: "lstat E p = Some s" "\<not> isSymbolicLink s"
      "isDirectory s" "readdir E p = Some items"
      "scanCandidates E p (pushLevel E p options st) items = Inr cands"
      "\<not> exceedsMaxLeaf options (visibleCount cands)" by blast
    let ?F = "map_sum id (\<lambda>cs. TreeNode (path_basename p) p Folder
                   (Some (array_sort (compareNodes E) cs)) None None)"
    from Suc.prems obtain z where
      z: "buildChildren (\<lambda>q. buildTree fuel E q options (pushLevel E p options st)) cands
            = Some z" and r: "r = ?F z"
      unfolding buildTree_expanded [OF h] by auto
    have "buildChildren (\<lambda>q. buildTree (Suc fuel) E q options (pushLevel E p options st))
            cands = Some z"
      using z by (rule buildChildren_mono [rotated]) (rule Suc.IH)
    with r show ?thesis
      unfolding buildTree_expanded [OF h] by simp
  next
    case False
    then have "buildTree (Suc (Suc fuel)) E p options st = buildTree (Suc fuel) E p options st"
      by (cases "lstat E p") (auto simp: Let_def split: option.splits sum.splits)
    with Suc.prems show ?thesis by simp
  qed
qed

lemma buildTree_more_fuel:
  "buildTree fuel E p options st = Some r \<Longrightarrow> buildTree (fuel + k) E p options st = Some r"
  by (induction k) (simp_all add: buildTree_Suc_fuel del: buildTree.simps)

text \<open>
  On a file system without paths of \<open>d\<close> components or more, and with a matcher
  that does not throw, a call returns a node as soon as its depth bound reaches down
  to \<open>d\<close>.
\<close>

lemma buildTree_returns:
  assumes bound: "\<forall>q. d \<le> length q \<longrightarrow> lstat E q = None"
    and quiet: "\<forall>ig rel. \<exists>b. ignores E ig rel = Inr b"
  shows "0 < fuel \<Longrightarrow> d \<le> length p + fuel \<Longrightarrow>
         \<exists>t. buildTree fuel E p options st = Some (Inr t)"
proof (induction fuel arbitrary: p st)
  case 0
  then show ?case by simp
next
  case (Suc fuel)
  show ?case
  proof (cases "lstat E p")
    case None
    then show ?thesis by (simp add: buildTree_lstat_fails)
  next
    case (Some s)
    show ?thesis
    proof (cases "isSymbolicLink s")
      case True
      with Some show ?thesis by (simp add: buildTree_symlink)
    next
      case nl: False
      show ?thesis
      proof (cases "isDirectory s")
        case False
        with Some nl show ?thesis by (simp add: buildTree_file)
      next
        case dir: True
        show ?thesis
        proof (cases "readdir E p")
          case None
          with Some nl dir show ?thesis by (simp add: buildTree_readdir_fails)
        next
          case rd: (Some items)
          from scanCandidates_returns [OF quiet] obtain cands where
            sc: "scanCandidates E p (pushLevel E p options st) items = Inr cands" by blast
          show ?thesis
          proof (cases "exceedsMaxLeaf options (visibleCount cands)")
            case True
            with Some nl dir rd sc show ?thesis by (simp add: buildTree_collapsed)
          next
            case False
            have "\<exists>c. buildTree fuel E (cand_path cand) options (pushLevel E p options st)
                    = Some (Inr c)"
              if "cand \<in> set cands" for cand
            proof -
              from scanCandidates_elem [OF sc that]
              have cp: "cand_path cand = p @ [cand_name cand]"
                and ls: "lstat E (cand_path cand) = Some (cand_stats cand)"
                by (auto simp: path_join_def)
              from ls bound have "length (cand_path cand) < d"
                by (metis not_le option.distinct(1))
              with cp Suc.prems have "0 < fuel" "d \<le> length (cand_path cand) + fuel"
                by auto
              then show ?thesis by (rule Suc.IH)
            qed
            then have "\<exists>cs. buildChildren
                (\<lambda>q. buildTree fuel E q options (pushLevel E p options st)) cands
                  = Some (Inr cs)"
              by (intro buildChildren_total) auto
            then show ?thesis
              unfolding buildTree_expanded [OF Some nl dir rd sc False] by auto
          qed
        qed
      qed
    qed
  qed
qed

section \<open>A threshold of 0\<close>

lemma exceedsMaxLeaf_falsy:
  "maxLeaf options = None \<or> maxLeaf options = Some 0 \<Longrightarrow> \<not> exceedsMaxLeaf options k"
  by (auto simp: exceedsMaxLeaf_def)

lemma pushLevel_maxLeaf_update:
  "pushLevel E p (options\<lparr>maxLeaf := x\<rparr>) st = pushLevel E p options st"
  by (simp add: pushLevel_def currentIgnorer_def)

lemma buildTree_zero_is_absent:
  "buildTree fuel E p (options\<lparr>maxLeaf := Some 0\<rparr>) st =
   buildTree fuel E p (options\<lparr>maxLeaf := None\<rparr>) st"
proof (induction fuel arbitrary: p st)
  case 0
  show ?case by simp
next
  case (Suc fuel)
  have rec: "(\<lambda>q. buildTree fuel E q (options\<lparr>maxLeaf := Some 0\<rparr>) st') =
             (\<lambda>q. buildTree fuel E q (options\<lparr>maxLeaf := None\<rparr>) st')" for st'
    using Suc.IH by auto
  have e0: "\<not> exceedsMaxLeaf (options\<lparr>maxLeaf := Some 0\<rparr>) k" for k
    by (simp add: exceedsMaxLeaf_def)
  have e1: "\<not> exceedsMaxLeaf (options\<lparr>maxLeaf := None\<rparr>) k" for k
    by (simp add: exceedsMaxLeaf_def)
  show ?case
    by (simp add: pushLevel_maxLeaf_update e0 e1 rec Let_def split: option.splits sum.splits)
qed

lemma buildTree_never_collapses:
  assumes "maxLeaf options = None \<or> maxLeaf options = Some 0"
    and "buildTree fuel E p options st = Some (Inr t)" and "n \<in> set (nodes t)"
  shows "skipped n \<noteq> Some SkippedSize"
  using assms(2,3)
proof (rule buildTree_nodes_induct)
  fix fuel' p' st' t'
  assume "buildTree fuel' E p' options st' = Some (Inr t')"
  then show "skipped t' \<noteq> Some SkippedSize"
    by (cases rule: buildTree_result_cases)
       (use assms(1) exceedsMaxLeaf_falsy in auto)
qed simp_all

text \<open>
  C9. With \<^verbatim>\<open>maxLeaf\<close> 0 every call of \<^verbatim>\<open>buildTree\<close> returns what it returns
  with \<^verbatim>\<open>maxLeaf\<close> absent, and no node of the result carries the marker
  \<^verbatim>\<open>size\<close>, however many visible entries a directory has.
\<close>

theorem buildTree_maxLeaf_zero:
  "buildTree fuel E p (options\<lparr>maxLeaf := Some 0\<rparr>) st =
     buildTree fuel E p (options\<lparr>maxLeaf := None\<rparr>) st \<and>
   (\<forall>t n. buildTree fuel E p (options\<lparr>maxLeaf := Some 0\<rparr>) st = Some (Inr t) \<and>
          n \<in> set (nodes t) \<longrightarrow> skipped n \<noteq> Some SkippedSize)"
proof (intro conjI allI impI)
  show "buildTree fuel E p (options\<lparr>maxLeaf := Some 0\<rparr>) st =
     buildTree fuel E p (options\<lparr>maxLeaf := None\<rparr>) st"
    by (rule buildTree_zero_is_absent)
next
  fix t n
  assume a: "buildTree fuel E p (options\<lparr>maxLeaf := Some 0\<rparr>) st = Some (Inr t) \<and>
          n \<in> set (nodes t)"
  have "maxLeaf (options\<lparr>maxLeaf := Some 0\<rparr>) = None \<or>
        maxLeaf (options\<lparr>maxLeaf := Some 0\<rparr>) = Some 0" by simp
  from buildTree_never_collapses [OF this] a
  show "skipped n \<noteq> Some SkippedSize" by blast
qed

lemma largeDirEnv_unbounded:
  "buildTree 2 largeDirEnv [''root''] noOptions [] = Some (Inr largeDirTree)"
  by code_simp

theorem buildTree_maxLeaf_zero_witness:
  "buildTree 2 largeDirEnv [''root''] (noOptions\<lparr>maxLeaf := Some 0\<rparr>) [] = Some (Inr largeDirTree) \<and>
   map skipped (nodes largeDirTree) = replicate 7 None"
proof -
  have "noOptions\<lparr>maxLeaf := None\<rparr> = noOptions" by (simp add: noOptions_def)
  with buildTree_maxLeaf_zero [of 2 largeDirEnv "[''root'']" noOptions "[]"]
    largeDirEnv_unbounded
  have "buildTree 2 largeDirEnv [''root''] (noOptions\<lparr>maxLeaf := Some 0\<rparr>) [] =
          Some (Inr largeDirTree)" by simp
  moreover have "map skipped (nodes largeDirTree) = replicate 7 None"
    by (simp add: largeDirTree_def largeNames_def numeral_eq_Suc)
  ultimately show ?thesis by simp
qed

section \<open>The root node\<close>

text \<open>
  C6, as the source has it. A call on a directory that is no symbolic link returns a
  folder node that never carries the marker \<^verbatim>\<open>gitignore\<close>: no ignore rule is
  applied to the path of the call itself. The size threshold applies to the root as
  to every directory: the root carries the marker \<^verbatim>\<open>size\<close> exactly when it was
  listed and its visible entries exceed a \<^verbatim>\<open>maxLeaf\<close> other than 0.
\<close>

theorem buildTree_root_node:
  assumes "lstat E p = Some s" and "\<not> isSymbolicLink s" and "isDirectory s"
    and "buildTree fuel E p options [] = Some (Inr t)"
  shows "type t = Folder \<and> skipped t \<noteq> Some SkippedGitignore \<and>
         (skipped t = Some SkippedSize) =
           (\<exists>items cands. readdir E p = Some items \<and>
              scanCandidates E p (pushLevel E p options []) items = Inr cands \<and>
              exceedsMaxLeaf options (visibleCount cands))"
  using assms(4)
  by (cases rule: buildTree_result_cases) (use assms(1-3) in auto)

theorem buildTree_root_node_witness:
  "buildTree 2 largeDirEnv [''root''] \<lparr>maxLeaf = Some 3, ignorePatterns = None\<rparr> [] =
     Some (Inr (TreeNode ''root'' [''root''] Folder
            (Some [TreeNode ''large-dir'' [''root'', ''large-dir''] Folder None
                     (Some SkippedSize) None])
            None None)) \<and>
   \<not> (\<exists>cands. scanCandidates largeDirEnv [''root'']
          (pushLevel largeDirEnv [''root''] \<lparr>maxLeaf = Some 3, ignorePatterns = None\<rparr> [])
          [''large-dir''] = Inr cands \<and>
        exceedsMaxLeaf \<lparr>maxLeaf = Some 3, ignorePatterns = None\<rparr> (visibleCount cands))"
proof -
  let ?o = "\<lparr>maxLeaf = Some 3, ignorePatterns = None\<rparr>"
  let ?t = "TreeNode ''root'' [''root''] Folder
            (Some [TreeNode ''large-dir'' [''root'', ''large-dir''] Folder None
                     (Some SkippedSize) None])
            None None"
  have l: "lstat largeDirEnv [''root''] = Some dirStats" by (simp add: largeDirEnv_def)
  have d: "\<not> isSymbolicLink dirStats" "isDirectory dirStats"
    by (simp_all add: dirStats_def)
  have r: "readdir largeDirEnv [''root''] = Some [''large-dir'']"
    by (simp add: largeDirEnv_def)
  have b: "buildTree 2 largeDirEnv [''root''] ?o [] = Some (Inr ?t)"
    by code_simp
  from buildTree_root_node [OF l d b] r
  have "\<not> (\<exists>cands. scanCandidates largeDirEnv [''root'']
          (pushLevel largeDirEnv [''root''] ?o []) [''large-dir''] = Inr cands \<and>
        exceedsMaxLeaf ?o (visibleCount cands))"
    by simp
  with b show ?thesis by simp
qed

theorem buildTree_root_node_counterexample:
  "buildTree (Suc 0) largeDirEnv [''root'', ''large-dir'']
     \<lparr>maxLeaf = Some 3, ignorePatterns = None\<rparr> [] =
     Some (Inr (TreeNode ''large-dir'' [''root'', ''large-dir''] Folder None
                  (Some SkippedSize) None)) \<and>
   buildTree (Suc 0) largeDirEnv [''root'', ''large-dir'', ''file0.txt'']
     \<lparr>maxLeaf = Some 3, ignorePatterns = None\<rparr> [] =
     Some (Inr (TreeNode ''file0.txt'' [''root'', ''large-dir'', ''file0.txt''] File None
                  None (Some 7)))"
  by code_simp

section \<open>Symbolic links\<close>

text \<open>
  C7, as the source has it. No node of a result lies at or below a path under the
  path of the call that \<^verbatim>\<open>lstat\<close> reports as a symbolic link: such an entry
  gives no node and nothing is read through it. The path of the call itself is the
  one exception: when it is a symbolic link, the result is the file node of size 0
  for it (lines 58 to 60).
\<close>

theorem buildTree_symlinks:
  assumes "buildTree fuel E p options st = Some (Inr t)"
    and "lstat E (p @ r1) = Some s" and "isSymbolicLink s"
  shows "(r1 \<noteq> [] \<longrightarrow> (\<forall>n \<in> set (nodes t). \<forall>r. path n \<noteq> p @ r1 @ r)) \<and>
         (r1 = [] \<longrightarrow> t = TreeNode (path_basename p) p File None None (Some 0))"
proof (intro conjI impI ballI allI)
  fix n r
  assume r1: "r1 \<noteq> []" and n: "n \<in> set (nodes t)"
  show "path n \<noteq> p @ r1 @ r"
  proof
    assume eq: "path n = p @ r1 @ r"
    from buildTree_nodes_below [OF assms(1) n] obtain r0 where
      r0: "path n = p @ r0"
      and k: "\<forall>k. 0 < k \<and> k \<le> length r0 \<longrightarrow>
              (\<exists>s. lstat E (p @ take k r0) = Some s \<and> \<not> isSymbolicLink s)"
      by blast
    from eq r0 have "r0 = r1 @ r" by simp
    with r1 have "0 < length r1 \<and> length r1 \<le> length r0" "take (length r1) r0 = r1"
      by simp_all
    with k have "\<exists>s. lstat E (p @ r1) = Some s \<and> \<not> isSymbolicLink s" by metis
    with assms(2,3) show False by simp
  qed
next
  assume "r1 = []"
  with assms(2) have l: "lstat E p = Some s" by simp
  from assms(1) obtain fuel' where "fuel = Suc fuel'" by (cases fuel) auto
  with assms(1) buildTree_symlink [OF l assms(3)]
  show "t = TreeNode (path_basename p) p File None None (Some 0)" by simp
qed

theorem buildTree_symlinks_witness:
  "buildTree 3 symlinkEnv [''root''] noOptions [] = Some (Inr symlinkTree) \<and>
   lstat symlinkEnv [''root'', ''link''] = Some linkStats \<and>
   isSymbolicLink linkStats \<and>
   map path (nodes symlinkTree) =
     [[''root''], [''root'', ''target''], [''root'', ''target'', ''file.txt'']] \<and>
   \<not> (\<exists>n \<in> set (nodes symlinkTree). \<exists>r. path n = [''root'', ''link''] @ r)"
proof -
  have b: "buildTree 3 symlinkEnv [''root''] noOptions [] = Some (Inr symlinkTree)"
    by code_simp
  have l: "lstat symlinkEnv ([''root''] @ [''link'']) = Some linkStats"
    by (simp add: symlinkEnv_def)
  have s: "isSymbolicLink linkStats" by (simp add: linkStats_def)
  from buildTree_symlinks [OF b l s]
  have "\<not> (\<exists>n \<in> set (nodes symlinkTree). \<exists>r. path n = [''root'', ''link''] @ r)"
    by simp
  moreover have "map path (nodes symlinkTree) =
     [[''root''], [''root'', ''target''], [''root'', ''target'', ''file.txt'']]"
    by (simp add: symlinkTree_def)
  ultimately show ?thesis using b l s by simp
qed

theorem buildTree_symlinks_counterexample:
  "lstat symlinkEnv [''root'', ''link''] = Some linkStats \<and>
   isSymbolicLink linkStats \<and>
   buildTree (Suc 0) symlinkEnv [''root'', ''link''] noOptions [] =
     Some (Inr (TreeNode ''link'' [''root'', ''link''] File None None (Some 0)))"
  by code_simp

section \<open>Ignored entries\<close>

text \<open>
  C3. In a directory that is expanded (listed, and not collapsed for its size), take
  an entry that \<^verbatim>\<open>lstat\<close> resolves, that is no symbolic link and that the ignore
  rules exclude. If it is a directory, its stub (a folder node marked
  \<^verbatim>\<open>gitignore\<close>, without a \<^verbatim>\<open>children\<close> field) is among the children of the
  parent, and the stub is the only node of the tree at or below the path of the
  entry: nothing under it was visited. If it is a file, no node of the tree lies at
  its path.
\<close>

theorem buildTree_ignored_entries:
  assumes "lstat E p = Some s" and "\<not> isSymbolicLink s" and "isDirectory s"
    and "readdir E p = Some items"
    and "scanCandidates E p (pushLevel E p options st) items = Inr cands"
    and "\<not> exceedsMaxLeaf options (visibleCount cands)"
    and "buildTree fuel E p options st = Some (Inr t)"
    and "item \<in> set items"
    and "lstat E (path_join p item) = Some s'" and "\<not> isSymbolicLink s'"
    and "checkIgnored E (pushLevel E p options st) (path_join p item) s' = Inr True"
  shows
    "(isDirectory s' \<longrightarrow>
        (\<exists>cs. children t = Some cs \<and>
           TreeNode item (path_join p item) Folder None (Some SkippedGitignore) None \<in> set cs) \<and>
        (\<forall>n \<in> set (nodes t). \<forall>r. path n = path_join p item @ r \<longrightarrow>
           n = TreeNode item (path_join p item) Folder None (Some SkippedGitignore) None)) \<and>
     (\<not> isDirectory s' \<longrightarrow>
        (\<forall>n \<in> set (nodes t). \<forall>r. path n \<noteq> path_join p item @ r))"
proof -
  let ?st = "pushLevel E p options st"
  let ?stub = "TreeNode item (path_join p item) Folder None (Some SkippedGitignore) None"
  let ?cand = "\<lparr>cand_name = item, cand_path = path_join p item,
                 isIgnored = True, cand_stats = s'\<rparr>"
  from assms(7) obtain fuel' cs where
    cs: "buildChildren (\<lambda>q. buildTree fuel' E q options ?st) cands = Some (Inr cs)"
    and t: "t = TreeNode (path_basename p) p Folder
                  (Some (array_sort (compareNodes E) cs)) None None"
    by (cases rule: buildTree_result_cases) (use assms(1-6) in auto)
  have cand: "?cand \<in> set cands"
    using scanCandidates_mem [OF assms(5,8,9,10)] assms(11) by auto
  have stub_in: "?stub \<in> set cs" if "isDirectory s'"
    using buildChildren_mem [OF cs cand] that by simp
  have only: "n = ?stub \<and> isDirectory s'"
    if n: "n \<in> set (nodes t)" and pn: "path n = path_join p item @ r" for n r
  proof -
    from pn t have "n \<noteq> t" by (auto simp: path_join_def)
    with n t obtain c where c: "c \<in> set cs" and nc: "n \<in> set (nodes c)"
      by (auto simp: set_array_sort)
    have same: "cand_name cand' = item \<and> cand_stats cand' = s' \<and> isIgnored cand'"
      if c': "cand' \<in> set cands" and pre: "path n = cand_path cand' @ r'" for cand' r'
    proof -
      from scanCandidates_elem [OF assms(5) c']
      have cp: "cand_path cand' = p @ [cand_name cand']"
        and ls: "lstat E (cand_path cand') = Some (cand_stats cand')"
        and ig: "checkIgnored E ?st (cand_path cand') (cand_stats cand') = Inr (isIgnored cand')"
        by (auto simp: path_join_def)
      from pre pn cp have nm: "cand_name cand' = item" by (simp add: path_join_def)
      with cp have "cand_path cand' = path_join p item" by (simp add: path_join_def)
      with ls ig assms(9,11) nm show ?thesis by simp
    qed
    from cs c show ?thesis
    proof (cases rule: buildChildren_elem_cases)
      case (stub cand')
      with nc have nn: "n = c" by simp
      with stub(4) have "path n = cand_path cand' @ []" by simp
      from same [OF stub(1) this] scanCandidates_elem [OF assms(5) stub(1)] stub nn
      show ?thesis by simp
    next
      case (leaf cand')
      with nc have "n = c" by simp
      with leaf(4) have "path n = cand_path cand' @ []" by simp
      from same [OF leaf(1) this] leaf(2) show ?thesis by simp
    next
      case (sub cand')
      from buildTree_nodes_below [OF sub(4) nc] obtain r' where
        "path n = cand_path cand' @ r'" by blast
      from same [OF sub(1) this] sub(2) show ?thesis by simp
    qed
  qed
  show ?thesis
  proof (intro conjI impI ballI allI)
    assume "isDirectory s'"
    with stub_in t show "\<exists>cs. children t = Some cs \<and> ?stub \<in> set cs"
      by (simp add: set_array_sort)
  next
    fix n r
    assume "n \<in> set (nodes t)" "path n = path_join p item @ r"
    with only show "n = ?stub" by blast
  next
    fix n r
    assume "\<not> isDirectory s'" "n \<in> set (nodes t)"
    with only show "path n \<noteq> path_join p item @ r" by blast
  qed
qed

lemma ignoreEnv_run:
  "buildTree 2 ignoreEnv [''root''] ignoreOptions [] = Some (Inr ignoreTree)"
  by code_simp

theorem buildTree_ignored_entries_witness:
  "buildTree 2 ignoreEnv [''root''] ignoreOptions [] = Some (Inr ignoreTree) \<and>
   TreeNode ''node_modules'' [''root'', ''node_modules''] Folder None (Some SkippedGitignore) None
     \<in> set (the (children ignoreTree)) \<and>
   TreeNode ''.git'' [''root'', ''.git''] Folder None (Some SkippedGitignore) None
     \<in> set (the (children ignoreTree)) \<and>
   \<not> (\<exists>n \<in> set (nodes ignoreTree). \<exists>r. path n = [''root'', ''ignored.txt''] @ r) \<and>
   \<not> (\<exists>n \<in> set (nodes ignoreTree). path n = [''root'', ''node_modules'', ''pkg.json''])"
proof -
  let ?st = "pushLevel ignoreEnv [''root''] ignoreOptions []"
  let ?items = "[''.git'', ''ignored.txt'', ''included.txt'', ''node_modules'']"
  let ?cands = "projr (scanCandidates ignoreEnv [''root''] ?st ?items)"
  have l: "lstat ignoreEnv [''root''] = Some dirStats" by (simp add: ignoreEnv_def)
  have d: "\<not> isSymbolicLink dirStats" "isDirectory dirStats"
    by (simp_all add: dirStats_def)
  have r: "readdir ignoreEnv [''root''] = Some ?items"
    by (simp add: ignoreEnv_def)
  have sc: "scanCandidates ignoreEnv [''root''] ?st ?items = Inr ?cands"
    by code_simp
  have e: "\<not> exceedsMaxLeaf ignoreOptions (visibleCount ?cands)"
    by (simp add: exceedsMaxLeaf_def ignoreOptions_def)
  note b = ignoreEnv_run
  note T = buildTree_ignored_entries [OF l d r sc e b]
  have dir: "\<not> isSymbolicLink dirStats" "isDirectory dirStats"
    and fil: "\<not> isSymbolicLink (fileStats 2)" "\<not> isDirectory (fileStats 2)"
    by (simp_all add: dirStats_def fileStats_def)
  have i1: "''node_modules'' \<in> set ?items" "''.git'' \<in> set ?items"
    "''ignored.txt'' \<in> set ?items" by simp_all
  have l1: "lstat ignoreEnv (path_join [''root''] ''node_modules'') = Some dirStats"
    and l2: "lstat ignoreEnv (path_join [''root''] ''.git'') = Some dirStats"
    and l3: "lstat ignoreEnv (path_join [''root''] ''ignored.txt'') = Some (fileStats 2)"
    by (simp_all add: ignoreEnv_def path_join_def)
  have c1: "checkIgnored ignoreEnv ?st (path_join [''root''] ''node_modules'') dirStats = Inr True"
    and c2: "checkIgnored ignoreEnv ?st (path_join [''root''] ''.git'') dirStats = Inr True"
    and c3: "checkIgnored ignoreEnv ?st (path_join [''root''] ''ignored.txt'') (fileStats 2)
               = Inr True"
    by code_simp+
  have nm: "TreeNode ''node_modules'' [''root'', ''node_modules''] Folder None
              (Some SkippedGitignore) None \<in> set (the (children ignoreTree)) \<and>
            (\<forall>n \<in> set (nodes ignoreTree). \<forall>r. path n = [''root'', ''node_modules''] @ r \<longrightarrow>
               n = TreeNode ''node_modules'' [''root'', ''node_modules''] Folder None
                     (Some SkippedGitignore) None)"
    using T [OF i1(1) l1 dir(1) c1] dir(2) by (auto simp: path_join_def)
  have git: "TreeNode ''.git'' [''root'', ''.git''] Folder None
              (Some SkippedGitignore) None \<in> set (the (children ignoreTree))"
    using T [OF i1(2) l2 dir(1) c2] dir(2) by (auto simp: path_join_def)
  have ign: "\<forall>n \<in> set (nodes ignoreTree). \<forall>r. path n \<noteq> [''root'', ''ignored.txt''] @ r"
    using T [OF i1(3) l3 fil(1) c3] fil(2) by (auto simp: path_join_def)
  have "\<not> (\<exists>n \<in> set (nodes ignoreTree). path n = [''root'', ''node_modules'', ''pkg.json''])"
  proof
    assume "\<exists>n \<in> set (nodes ignoreTree). path n = [''root'', ''node_modules'', ''pkg.json'']"
    then obtain n where n: "n \<in> set (nodes ignoreTree)"
      and pn: "path n = [''root'', ''node_modules''] @ [''pkg.json'']" by auto
    with nm have "n = TreeNode ''node_modules'' [''root'', ''node_modules''] Folder None
                     (Some SkippedGitignore) None" by blast
    with pn show False by simp
  qed
  with b nm git ign show ?thesis by blast
qed

section \<open>The size threshold\<close>

text \<open>
  C2. A directory that is listed, under a \<^verbatim>\<open>maxLeaf\<close> that is set (a number
  other than 0, which line 131 treats as unset). When the number of visible entries
  (those that \<^verbatim>\<open>lstat\<close> resolves, that are no symbolic links and that no level
  of the stack excludes) is greater than \<^verbatim>\<open>maxLeaf\<close>, the call returns the
  folder node marked \<^verbatim>\<open>size\<close> without a \<^verbatim>\<open>children\<close> field, whatever the
  depth bound, so without any recursive call. When it is at most \<^verbatim>\<open>maxLeaf\<close>,
  the node returned is a folder without a marker whose children hold every visible
  entry: the file node of each visible file and, for each visible directory, the
  result of \<^verbatim>\<open>buildTree\<close> on it; there is one child for each visible entry and
  one for each ignored directory, and the call returns as soon as the calls on the
  visible directories have. The count compared is the visible one, not the length
  of the listing.
\<close>

theorem buildTree_maxLeaf_threshold:
  assumes "lstat E p = Some s" and "\<not> isSymbolicLink s" and "isDirectory s"
    and "readdir E p = Some items"
    and "scanCandidates E p (pushLevel E p options st) items = Inr cands"
    and "maxLeaf options = Some m" and "m \<noteq> 0"
  shows
    "(m < int (visibleCount cands) \<longrightarrow>
        buildTree (Suc fuel) E p options st =
          Some (Inr (TreeNode (path_basename p) p Folder None (Some SkippedSize) None))) \<and>
     (int (visibleCount cands) \<le> m \<longrightarrow>
        ((\<forall>cand \<in> set cands. \<not> isIgnored cand \<and> isDirectory (cand_stats cand) \<longrightarrow>
            (\<exists>c. buildTree fuel E (cand_path cand) options (pushLevel E p options st)
                   = Some (Inr c))) \<longrightarrow>
         (\<exists>t. buildTree (Suc fuel) E p options st = Some (Inr t))) \<and>
        (\<forall>k t. buildTree k E p options st = Some (Inr t) \<longrightarrow>
           type t = Folder \<and> skipped t = None \<and>
           (\<exists>cs. children t = Some cs \<and>
              length cs =
                visibleCount cands +
                length (filter (\<lambda>c. isIgnored c \<and> isDirectory (cand_stats c)) cands) \<and>
              (\<forall>item s'.
                 item \<in> set items \<and> lstat E (path_join p item) = Some s' \<and>
                 \<not> isSymbolicLink s' \<and>
                 checkIgnored E (pushLevel E p options st) (path_join p item) s' = Inr False
                 \<longrightarrow>
                 (if isDirectory s'
                  then \<exists>c \<in> set cs. \<exists>j.
                         buildTree j E (path_join p item) options (pushLevel E p options st)
                           = Some (Inr c)
                  else TreeNode item (path_join p item) File None None (Some (st_size s'))
                         \<in> set cs))))) \<and>
     visibleCount cands =
       length (filter (\<lambda>item. case lstat E (path_join p item) of
                         None \<Rightarrow> False
                       | Some s' \<Rightarrow> \<not> isSymbolicLink s' \<and>
                           checkIgnored E (pushLevel E p options st) (path_join p item) s'
                             = Inr False)
                 items)"
proof -
  let ?st = "pushLevel E p options st"
  let ?visible = "\<lambda>item s'. item \<in> set items \<and> lstat E (path_join p item) = Some s' \<and>
                 \<not> isSymbolicLink s' \<and>
                 checkIgnored E ?st (path_join p item) s' = Inr False"
  let ?child = "\<lambda>cs item s'.
                 if isDirectory s'
                 then \<exists>c \<in> set cs. \<exists>j.
                        buildTree j E (path_join p item) options ?st = Some (Inr c)
                 else TreeNode item (path_join p item) File None None (Some (st_size s'))
                        \<in> set cs"
  have A: "buildTree (Suc fuel) E p options st =
          Some (Inr (TreeNode (path_basename p) p Folder None (Some SkippedSize) None))"
    if "m < int (visibleCount cands)"
  proof -
    from that assms(6,7) have "exceedsMaxLeaf options (visibleCount cands)"
      by (simp add: exceedsMaxLeaf_def)
    with assms(1-5) show ?thesis by (rule buildTree_collapsed)
  qed
  have ne: "\<not> exceedsMaxLeaf options (visibleCount cands)"
    if "int (visibleCount cands) \<le> m"
    using that assms(6) by (simp add: exceedsMaxLeaf_def)
  have B1: "\<exists>t. buildTree (Suc fuel) E p options st = Some (Inr t)"
    if le: "int (visibleCount cands) \<le> m"
      and rec: "\<forall>cand \<in> set cands. \<not> isIgnored cand \<and> isDirectory (cand_stats cand) \<longrightarrow>
            (\<exists>c. buildTree fuel E (cand_path cand) options ?st = Some (Inr c))"
  proof -
    from rec have "\<exists>cs. buildChildren (\<lambda>q. buildTree fuel E q options ?st) cands
                      = Some (Inr cs)"
      by (intro buildChildren_total) auto
    then show ?thesis
      unfolding buildTree_expanded [OF assms(1-5) ne [OF le]] by auto
  qed
  have B2: "type t = Folder \<and> skipped t = None \<and>
           (\<exists>cs. children t = Some cs \<and>
              length cs =
                visibleCount cands +
                length (filter (\<lambda>c. isIgnored c \<and> isDirectory (cand_stats c)) cands) \<and>
              (\<forall>item s'. ?visible item s' \<longrightarrow> ?child cs item s'))"
    if le: "int (visibleCount cands) \<le> m"
      and bt: "buildTree k E p options st = Some (Inr t)" for k t
  proof -
    from bt obtain k' cs0 where k: "k = Suc k'"
      and cs0: "buildChildren (\<lambda>q. buildTree k' E q options ?st) cands = Some (Inr cs0)"
      and t: "t = TreeNode (path_basename p) p Folder
                    (Some (array_sort (compareNodes E) cs0)) None None"
      by (cases rule: buildTree_result_cases) (use assms(1-5) ne [OF le] in auto)
    let ?cs = "array_sort (compareNodes E) cs0"
    have len: "length ?cs = visibleCount cands +
                  length (filter (\<lambda>c. isIgnored c \<and> isDirectory (cand_stats c)) cands)"
      using length_buildChildren [OF cs0] by (simp add: length_array_sort visibleCount_def)
    have vis: "?child ?cs item s'" if h: "?visible item s'" for item s'
    proof -
      from h scanCandidates_mem [OF assms(5), of item s']
      have "\<lparr>cand_name = item, cand_path = path_join p item, isIgnored = False,
              cand_stats = s'\<rparr> \<in> set cands" by auto
      from buildChildren_mem [OF cs0 this] show ?thesis
        by (auto simp: set_array_sort)
    qed
    have "type t = Folder" "skipped t = None" "children t = Some ?cs"
      using t by simp_all
    with len vis show ?thesis by blast
  qed
  have C: "visibleCount cands =
       length (filter (\<lambda>item. case lstat E (path_join p item) of
                         None \<Rightarrow> False
                       | Some s' \<Rightarrow> \<not> isSymbolicLink s' \<and>
                           checkIgnored E ?st (path_join p item) s' = Inr False)
                 items)"
    using assms(5) by (rule visibleCount_entries)
  from A B1 B2 C show ?thesis by blast
qed

lemma visibleEnv_run:
  "buildTree 2 visibleEnv [''root''] hiddenTwo [] = Some (Inr visibleTree)"
  by code_simp

theorem buildTree_maxLeaf_threshold_witness:
  "visibleCount (largeCands \<lparr>maxLeaf = Some 3, ignorePatterns = None\<rparr>) = 5 \<and>
   buildTree (Suc 0) largeDirEnv [''root'', ''large-dir'']
     \<lparr>maxLeaf = Some 3, ignorePatterns = None\<rparr>
     (largeDirStack \<lparr>maxLeaf = Some 3, ignorePatterns = None\<rparr>) =
     Some (Inr (TreeNode ''large-dir'' [''root'', ''large-dir''] Folder None
                  (Some SkippedSize) None)) \<and>
   length [''docs'', ''w.txt'', ''x.txt'', ''y.txt'', ''z.txt''] = 5 \<and>
   visibleCount visibleCands = 3 \<and>
   buildTree 2 visibleEnv [''root''] hiddenTwo [] = Some (Inr visibleTree) \<and>
   length (the (children visibleTree)) = 3 \<and>
   (\<exists>c \<in> set (the (children visibleTree)). \<exists>j.
      buildTree j visibleEnv [''root'', ''docs''] hiddenTwo
        (pushLevel visibleEnv [''root''] hiddenTwo []) = Some (Inr c)) \<and>
   TreeNode ''z.txt'' [''root'', ''z.txt''] File None None (Some 5)
     \<in> set (the (children visibleTree))"
proof -
  let ?o = "\<lparr>maxLeaf = Some 3, ignorePatterns = None\<rparr>"
  let ?items = "[''docs'', ''w.txt'', ''x.txt'', ''y.txt'', ''z.txt'']"
  have d: "\<not> isSymbolicLink dirStats" "isDirectory dirStats"
    by (simp_all add: dirStats_def)
  have f: "\<not> isSymbolicLink (fileStats 5)" "\<not> isDirectory (fileStats 5)"
    "st_size (fileStats 5) = 5"
    by (simp_all add: fileStats_def)
  have nz: "(3::int) \<noteq> 0" by simp
  \<comment> \<open>the directory of five visible files\<close>
  have l1: "lstat largeDirEnv [''root'', ''large-dir''] = Some dirStats"
    by (simp add: largeDirEnv_def)
  have r1: "readdir largeDirEnv [''root'', ''large-dir''] = Some largeNames"
    by (simp add: largeDirEnv_def)
  have s1: "scanCandidates largeDirEnv [''root'', ''large-dir'']
              (pushLevel largeDirEnv [''root'', ''large-dir''] ?o (largeDirStack ?o)) largeNames
              = Inr (largeCands ?o)"
    by code_simp
  have m1: "maxLeaf ?o = Some 3" by simp
  have v1: "visibleCount (largeCands ?o) = 5" by code_simp
  from buildTree_maxLeaf_threshold [OF l1 d r1 s1 m1 nz, of 0] v1
  have a: "buildTree (Suc 0) largeDirEnv [''root'', ''large-dir''] ?o (largeDirStack ?o) =
     Some (Inr (TreeNode ''large-dir'' [''root'', ''large-dir''] Folder None
                  (Some SkippedSize) None))"
    by (simp add: path_basename_def)
  \<comment> \<open>the directory of five entries, three of them visible\<close>
  have l2: "lstat visibleEnv [''root''] = Some dirStats" by (simp add: visibleEnv_def)
  have r2: "readdir visibleEnv [''root''] = Some ?items" by (simp add: visibleEnv_def)
  have s2: "scanCandidates visibleEnv [''root''] (pushLevel visibleEnv [''root''] hiddenTwo [])
              ?items = Inr visibleCands"
    by code_simp
  have m2: "maxLeaf hiddenTwo = Some 3" by (simp add: hiddenTwo_def)
  have v2: "visibleCount visibleCands = 3" by code_simp
  have le: "int (visibleCount visibleCands) \<le> 3" using v2 by simp
  note T = buildTree_maxLeaf_threshold [OF l2 d r2 s2 m2 nz, of 0]
  note B = T [THEN conjunct2, THEN conjunct1, THEN mp, OF le, THEN conjunct2,
      THEN spec, THEN spec, THEN mp, OF visibleEnv_run]
  from B obtain cs where cs: "children visibleTree = Some cs"
    and vis: "\<forall>item s'. item \<in> set ?items \<and>
                 lstat visibleEnv (path_join [''root''] item) = Some s' \<and>
                 \<not> isSymbolicLink s' \<and>
                 checkIgnored visibleEnv (pushLevel visibleEnv [''root''] hiddenTwo [])
                   (path_join [''root''] item) s' = Inr False \<longrightarrow>
                 (if isDirectory s'
                  then \<exists>c \<in> set cs. \<exists>j.
                         buildTree j visibleEnv (path_join [''root''] item) hiddenTwo
                           (pushLevel visibleEnv [''root''] hiddenTwo []) = Some (Inr c)
                  else TreeNode item (path_join [''root''] item) File None None
                         (Some (st_size s')) \<in> set cs)"
    by (elim conjE exE) (rule that; assumption)
  have ld: "lstat visibleEnv (path_join [''root''] ''docs'') = Some dirStats"
    and lz: "lstat visibleEnv (path_join [''root''] ''z.txt'') = Some (fileStats 5)"
    by (simp_all add: visibleEnv_def path_join_def)
  have cd: "checkIgnored visibleEnv (pushLevel visibleEnv [''root''] hiddenTwo [])
              (path_join [''root''] ''docs'') dirStats = Inr False"
    and cz: "checkIgnored visibleEnv (pushLevel visibleEnv [''root''] hiddenTwo [])
              (path_join [''root''] ''z.txt'') (fileStats 5) = Inr False"
    by code_simp+
  from vis [THEN spec, THEN spec, of "''docs''" dirStats] ld cd d
  have docs: "\<exists>c \<in> set cs. \<exists>j.
      buildTree j visibleEnv [''root'', ''docs''] hiddenTwo
        (pushLevel visibleEnv [''root''] hiddenTwo []) = Some (Inr c)"
    by (simp add: path_join_def)
  from vis [THEN spec, THEN spec, of "''z.txt''" "fileStats 5"] lz cz f
  have z: "TreeNode ''z.txt'' [''root'', ''z.txt''] File None None (Some 5) \<in> set cs"
    by (simp add: path_join_def)
  have c3: "length (the (children visibleTree)) = 3" by (simp add: visibleTree_def)
  from cs have "the (children visibleTree) = cs" by simp
  with docs z have docs': "\<exists>c \<in> set (the (children visibleTree)). \<exists>j.
      buildTree j visibleEnv [''root'', ''docs''] hiddenTwo
        (pushLevel visibleEnv [''root''] hiddenTwo []) = Some (Inr c)"
    and z': "TreeNode ''z.txt'' [''root'', ''z.txt''] File None None (Some 5)
               \<in> set (the (children visibleTree))"
    by simp_all
  have five: "length ?items = 5" by simp
  from v1 a five v2 visibleEnv_run c3 docs' z' show ?thesis by (intro conjI)
qed

section \<open>The order of the children\<close>

lemma lexCompare_Cons_le:
  "lexCompare (x # xs) (y # ys) \<le> 0 \<longleftrightarrow> x < y \<or> (x = y \<and> lexCompare xs ys \<le> 0)"
  by (cases "x < y"; cases "y < x") simp_all

lemma lexCompare_refl: "lexCompare xs xs = 0"
  by (induction xs) simp_all

lemma lexCompare_total: "lexCompare a b \<le> 0 \<or> lexCompare b a \<le> 0"
proof (induction a arbitrary: b)
  case Nil
  show ?case by (cases b) simp_all
next
  case (Cons x xs)
  show ?case
  proof (cases b)
    case Nil
    then show ?thesis by simp
  next
    case (Cons y ys)
    from Cons.IH [of ys] show ?thesis
      unfolding Cons lexCompare_Cons_le by linarith
  qed
qed

lemma lexCompare_trans:
  "lexCompare a b \<le> 0 \<Longrightarrow> lexCompare b c \<le> 0 \<Longrightarrow> lexCompare a c \<le> 0"
proof (induction a arbitrary: b c)
  case Nil
  show ?case by (cases c) simp_all
next
  case (Cons x xs)
  from Cons.prems(1) obtain y ys where b: "b = y # ys" by (cases b) auto
  from Cons.prems(2) b obtain z zs where c: "c = z # zs" by (cases c) auto
  from Cons.prems have
    xy: "x < y \<or> (x = y \<and> lexCompare xs ys \<le> 0)"
    and yz: "y < z \<or> (y = z \<and> lexCompare ys zs \<le> 0)"
    unfolding b c lexCompare_Cons_le by simp_all
  show ?case
  proof (cases "x < z")
    case True
    then show ?thesis unfolding c lexCompare_Cons_le by simp
  next
    case False
    with xy yz have "x = z" "lexCompare xs ys \<le> 0" "lexCompare ys zs \<le> 0"
      by linarith+
    with Cons.IH [of ys zs] show ?thesis unfolding c lexCompare_Cons_le by simp
  qed
qed

lemma lexCompare_antisym:
  "lexCompare a b \<le> 0 \<Longrightarrow> lexCompare b a \<le> 0 \<Longrightarrow> a = b"
proof (induction a arbitrary: b)
  case Nil
  then show ?case by (cases b) simp_all
next
  case (Cons x xs)
  from Cons.prems(1) obtain y ys where b: "b = y # ys" by (cases b) auto
  from Cons.prems have
    "x < y \<or> (x = y \<and> lexCompare xs ys \<le> 0)" "y < x \<or> (y = x \<and> lexCompare ys xs \<le> 0)"
    unfolding b lexCompare_Cons_le by simp_all
  then have "x = y" "lexCompare xs ys \<le> 0" "lexCompare ys xs \<le> 0" by linarith+
  with Cons.IH [of ys] b show ?case by simp
qed

lemma collate_le_iff:
  "collate a b \<le> 0 \<longleftrightarrow>
     lexCompare (map letterKey a) (map letterKey b) \<le> 0 \<and>
     (map letterKey a = map letterKey b \<longrightarrow>
        lexCompare (map caseKey a) (map caseKey b) \<le> 0)"
  by (simp add: collate_def lexCompare_refl)

lemma collate_total: "collate a b \<le> 0 \<or> collate b a \<le> 0"
proof (cases "map letterKey a = map letterKey b")
  case True
  with lexCompare_total [of "map caseKey a" "map caseKey b"] show ?thesis
    by (simp add: collate_def)
next
  case False
  with lexCompare_total [of "map letterKey a" "map letterKey b"] show ?thesis
    by (auto simp: collate_def)
qed

lemma collate_trans:
  assumes "collate a b \<le> 0" and "collate b c \<le> 0"
  shows "collate a c \<le> 0"
proof -
  let ?k = "map letterKey" and ?c = "map caseKey"
  from assms have ab: "lexCompare (?k a) (?k b) \<le> 0" and bc: "lexCompare (?k b) (?k c) \<le> 0"
    by (simp_all add: collate_le_iff)
  then have ac: "lexCompare (?k a) (?k c) \<le> 0" by (rule lexCompare_trans)
  have "lexCompare (?c a) (?c c) \<le> 0" if eq: "?k a = ?k c"
  proof -
    from eq ab bc have "?k a = ?k b"
      by (metis lexCompare_antisym)
    with eq have "?k b = ?k c" by simp
    with \<open>?k a = ?k b\<close> assms have "lexCompare (?c a) (?c b) \<le> 0"
      "lexCompare (?c b) (?c c) \<le> 0"
      by (simp_all add: collate_le_iff)
    then show ?thesis by (rule lexCompare_trans)
  qed
  with ac show ?thesis by (simp add: collate_le_iff)
qed

lemma buildTree_call_sorted:
  assumes tr: "\<forall>a b c. localeCompare E a b \<le> 0 \<and> localeCompare E b c \<le> 0
             \<longrightarrow> localeCompare E a c \<le> 0"
    and tot: "\<forall>a b. localeCompare E a b \<le> 0 \<or> localeCompare E b a \<le> 0"
    and "buildTree fuel E p options st = Some (Inr t)"
  shows "\<forall>cs. children t = Some cs \<longrightarrow> sorted_wrt (\<lambda>a b. compareNodes E a b \<le> 0) cs"
  using assms(3)
proof (cases rule: buildTree_result_cases)
  case (expanded s items cands fuel' cs)
  have "sorted_wrt (\<lambda>a b. compareNodes E a b \<le> 0) (array_sort (compareNodes E) cs)"
    by (rule sorted_array_sort) (use compareNodes_trans [OF tr] compareNodes_total [OF tot] in blast)+
  with expanded(9) show ?thesis by simp
qed simp_all

text \<open>
  C5, as the source has it. In every folder node of a result that has a
  \<^verbatim>\<open>children\<close> field the children are in order: a folder never comes after a
  file, and two children of the same kind are in the order that \<^verbatim>\<open>localeCompare\<close>
  gives their names. The order within a kind is the runtime's, whatever it is, as
  long as it is a total preorder (transitive, and comparing any two names); it is
  not the case-sensitive lexicographic one.
\<close>

theorem buildTree_children_sorted:
  assumes "\<forall>a b c. localeCompare E a b \<le> 0 \<and> localeCompare E b c \<le> 0
             \<longrightarrow> localeCompare E a c \<le> 0"
    and "\<forall>a b. localeCompare E a b \<le> 0 \<or> localeCompare E b a \<le> 0"
    and "buildTree fuel E p options st = Some (Inr t)"
    and "n \<in> set (nodes t)"
    and "children n = Some cs"
  shows "sorted_wrt
           (\<lambda>a b. (type a = Folder \<or> type b = File) \<and>
                  (type a = type b \<longrightarrow> localeCompare E (name a) (name b) \<le> 0)) cs"
proof -
  have "\<forall>cs. children n = Some cs \<longrightarrow> sorted_wrt (\<lambda>a b. compareNodes E a b \<le> 0) cs"
    using assms(3,4)
  proof (rule buildTree_nodes_induct)
    fix fuel' p' st' t'
    assume "buildTree fuel' E p' options st' = Some (Inr t')"
    with assms(1,2)
    show "\<forall>cs. children t' = Some cs \<longrightarrow> sorted_wrt (\<lambda>a b. compareNodes E a b \<le> 0) cs"
      by (rule buildTree_call_sorted)
  qed simp_all
  with assms(5) have "sorted_wrt (\<lambda>a b. compareNodes E a b \<le> 0) cs" by simp
  then show ?thesis by (simp add: compareNodes_le_iff)
qed

lemma sortEnv_run: "buildTree 2 sortEnv [''root''] noOptions [] = Some (Inr sortTree)"
  by code_simp

theorem buildTree_children_sorted_witness:
  "buildTree 2 sortEnv [''root''] noOptions [] = Some (Inr sortTree) \<and>
   map name (the (children sortTree)) = [''lib'', ''Src'', ''b.txt'', ''B.txt''] \<and>
   sorted_wrt
     (\<lambda>a b. (type a = Folder \<or> type b = File) \<and>
            (type a = type b \<longrightarrow> collate (name a) (name b) \<le> 0))
     (the (children sortTree))"
proof -
  have lc: "localeCompare sortEnv = collate" by (simp add: sortEnv_def)
  have tr: "\<forall>a b c. localeCompare sortEnv a b \<le> 0 \<and> localeCompare sortEnv b c \<le> 0
             \<longrightarrow> localeCompare sortEnv a c \<le> 0"
    unfolding lc using collate_trans by blast
  have tot: "\<forall>a b. localeCompare sortEnv a b \<le> 0 \<or> localeCompare sortEnv b a \<le> 0"
    unfolding lc using collate_total by blast
  have n: "sortTree \<in> set (nodes sortTree)" by (rule nodes_root)
  have c: "children sortTree = Some (the (children sortTree))"
    by (simp add: sortTree_def)
  from buildTree_children_sorted [OF tr tot sortEnv_run n c]
  have "sorted_wrt
     (\<lambda>a b. (type a = Folder \<or> type b = File) \<and>
            (type a = type b \<longrightarrow> collate (name a) (name b) \<le> 0))
     (the (children sortTree))"
    unfolding lc .
  moreover have "map name (the (children sortTree)) = [''lib'', ''Src'', ''b.txt'', ''B.txt'']"
    by (simp add: sortTree_def)
  ultimately show ?thesis using sortEnv_run by simp
qed

text \<open>
  The children that the run on that directory returns are not in case-sensitive
  lexicographic order: \<^verbatim>\<open>lib\<close> stands before \<^verbatim>\<open>Src\<close> and \<^verbatim>\<open>b.txt\<close> before
  \<^verbatim>\<open>B.txt\<close>.
\<close>

theorem buildTree_children_sorted_counterexample:
  "buildTree 2 sortEnv [''root''] noOptions [] = Some (Inr sortTree) \<and>
   map name (the (children sortTree)) = [''lib'', ''Src'', ''b.txt'', ''B.txt''] \<and>
   codeCompare ''lib'' ''Src'' = 1 \<and>
   codeCompare ''b.txt'' ''B.txt'' = 1 \<and>
   \<not> sorted_wrt
       (\<lambda>a b. (type a = Folder \<or> type b = File) \<and>
              (type a = type b \<longrightarrow> codeCompare (name a) (name b) \<le> 0))
       (the (children sortTree))"
  by code_simp

section \<open>The ignore rules\<close>











section \<open>Errors\<close>

lemma lockedEnv_run:
  "buildTree 2 lockedEnv [''root''] noOptions [] =
     Some (Inr (TreeNode ''root'' [''root''] Folder
            (Some [TreeNode ''locked'' [''root'', ''locked''] Folder (Some []) None None,
                   TreeNode ''a.txt'' [''root'', ''a.txt''] File None None (Some 3)])
            None None))"
  "buildTree (Suc 0) lockedEnv [''missing''] noOptions [] =
     Some (Inr (TreeNode ''missing'' [''missing''] File None None (Some 0)))"
  by code_simp+

text \<open>
  C4. The three calls of the file system are caught where they fail: a path whose
  \<^verbatim>\<open>lstat\<close> fails gives the file node of size 0 and a directory whose listing
  fails gives a folder node with an empty \<^verbatim>\<open>children\<close> array (the lemmas
  \<open>buildTree_lstat_fails\<close> and \<open>buildTree_readdir_fails\<close>), and with a matcher that
  does not throw every call returns a node (\<open>buildTree_returns\<close>). The calls of the
  matcher in lines 116 and 120 are not caught. On a directory with an entry named
  \<^verbatim>\<open>...\<close>, \<^verbatim>\<open>ignorer.ignores('...')\<close> throws a \<^verbatim>\<open>RangeError\<close>, and the promise
  of \<^verbatim>\<open>buildTree\<close> is rejected with it, for every depth bound: an error does
  reach the caller.
\<close>

theorem buildTree_rejects_dots_entry:
  "buildTree (Suc fuel) dotsEnv [''root''] noOptions [] = Some (Inl RangeError)"
proof -
  have "buildTree (Suc 0) dotsEnv [''root''] noOptions [] = Some (Inl RangeError)"
    by code_simp
  from buildTree_more_fuel [OF this, of fuel] show ?thesis by simp
qed

end
